theory Spec2Isabelle
  imports Complex_Main "HOL-Library.Multiset"
begin

section \<open>Data model\<close>

text \<open>
  The detectors work on Python floats. They are modelled by the reals; the one non-finite
  value the code uses, \<^verbatim>\<open>float('inf')\<close>, is a constructor of its own. A detection is the
  tuple \<^verbatim>\<open>(x, y, confidence)\<close> of the source.
\<close>

type_synonym det = "real \<times> real \<times> real"

datatype pyfloat = Fin real | PInf

fun fless :: "pyfloat \<Rightarrow> pyfloat \<Rightarrow> bool" where
  "fless (Fin a) (Fin b) = (a < b)"
| "fless (Fin a) PInf = True"
| "fless PInf b = False"

datatype error = KeyError | TypeError | IndexError

definition det_x :: "det \<Rightarrow> real" where
  "det_x d = fst d"

definition det_y :: "det \<Rightarrow> real" where
  "det_y d = fst (snd d)"

definition det_conf :: "det \<Rightarrow> real" where
  "det_conf d = snd (snd d)"

text \<open>\<^verbatim>\<open>np.sqrt((x1 - x2) ** 2 + (y1 - y2) ** 2)\<close>\<close>

definition euclid :: "real \<Rightarrow> real \<Rightarrow> real \<Rightarrow> real \<Rightarrow> real" where
  "euclid x1 y1 x2 y2 = sqrt ((x1 - x2)\<^sup>2 + (y1 - y2)\<^sup>2)"

text \<open>\<^verbatim>\<open>sorted(detections, key=lambda d: d[0])\<close>: a stable sort on the x coordinate.\<close>

definition sort_by_x :: "det list \<Rightarrow> det list" where
  "sort_by_x ds = sort_key det_x ds"

record LEDDetection =
  led_x :: real
  led_y :: real
  led_confidence :: real
  led_method :: string

text \<open>
  The mutable attributes of \<^verbatim>\<open>RobustLEDDetector\<close>: the previous frame's detections
  (\<^verbatim>\<open>None\<close> before the first frame with three points), the per-id history (a dict with the
  keys 0, 1, 2) and the frame counter.
\<close>

record tracker =
  last_positions :: "det list option"
  led_trajectory :: "nat \<rightharpoonup> (real \<times> real) list"
  frame_count :: nat

definition expected_leds :: nat where
  "expected_leds = 3"

definition max_jump_dist :: real where
  "max_jump_dist = 150"

definition distance_threshold :: real where
  "distance_threshold = 20"

definition init_tracker :: tracker where
  "init_tracker = \<lparr> last_positions = None,
                    led_trajectory = [0 \<mapsto> [], 1 \<mapsto> [], 2 \<mapsto> []],
                    frame_count = 0 \<rparr>"

section \<open>Fusion: \<^verbatim>\<open>RobustLEDDetector._merge_detections\<close>\<close>

text \<open>The inner loop over \<^verbatim>\<open>j\<close>: absorb every later, unused point closer than 20 px to the seed.\<close>

fun absorb_step :: "nat \<Rightarrow> det \<Rightarrow> nat \<times> det \<Rightarrow> det list \<times> nat set \<Rightarrow> det list \<times> nat set" where
  "absorb_step i (x1, y1, conf1) (j, (x2, y2, conf2)) (cluster, used) =
     (if j \<le> i \<or> j \<in> used then (cluster, used)
      else if euclid x1 y1 x2 y2 < distance_threshold
           then (cluster @ [(x2, y2, conf2)], insert j used)
           else (cluster, used))"

definition build_cluster :: "det list \<Rightarrow> nat \<Rightarrow> det \<Rightarrow> nat set \<Rightarrow> det list \<times> nat set" where
  "build_cluster all_detections i d used =
     fold (absorb_step i d) (List.enumerate 0 all_detections) ([d], used)"

text \<open>
  The fused point of a cluster: position weighted by \<^verbatim>\<open>confs / np.sum(confs)\<close>, confidence
  \<^verbatim>\<open>np.mean(confs)\<close>.
\<close>

definition fuse :: "det list \<Rightarrow> det" where
  "fuse cluster =
     (let xs = map det_x cluster;
          ys = map det_y cluster;
          confs = map det_conf cluster;
          weights = map (\<lambda>c. c / sum_list confs) confs;
          avg_x = sum_list (map2 (*) xs weights);
          avg_y = sum_list (map2 (*) ys weights);
          avg_conf = sum_list confs / real (length confs)
      in (avg_x, avg_y, avg_conf))"

fun merge_step :: "det list \<Rightarrow> nat \<times> det \<Rightarrow> det list list \<times> nat set \<Rightarrow> det list list \<times> nat set" where
  "merge_step all_detections (i, d) (clusters, used) =
     (if i \<in> used then (clusters, used)
      else (case build_cluster all_detections i d used of
              (cluster, used') \<Rightarrow> (clusters @ [cluster], insert i used')))"

text \<open>
  \<^verbatim>\<open>all_detections.sort(key=lambda d: d[2], reverse=True)\<close> is stable and descending: equal
  confidences keep their input order, which is what a stable ascending sort on the negated key
  does.
\<close>

definition sort_by_conf_desc :: "det list \<Rightarrow> det list" where
  "sort_by_conf_desc ds = sort_key (\<lambda>d. - det_conf d) ds"

definition merge_clusters :: "det list \<Rightarrow> det list list" where
  "merge_clusters all_detections =
     fst (fold (merge_step all_detections) (List.enumerate 0 all_detections) ([], {}))"

definition merge_detections :: "det list list \<Rightarrow> det list" where
  "merge_detections detections_list =
     (let all_detections = concat detections_list
      in if all_detections = [] then []
         else map fuse (merge_clusters (sort_by_conf_desc all_detections)))"

section \<open>Identity tracking: \<^verbatim>\<open>RobustLEDDetector._assign_led_ids_robust\<close>\<close>

text \<open>
  The scan of one slot over the current points. \<^verbatim>\<open>best_new_idx = -1\<close> is \<open>None\<close>.
\<close>

fun nearest_step :: "nat set \<Rightarrow> real \<Rightarrow> real \<Rightarrow> nat \<times> det \<Rightarrow> nat option \<times> pyfloat \<Rightarrow> nat option \<times> pyfloat" where
  "nearest_step used x_old y_old (new_idx, (x_new, y_new, c)) (best_new_idx, best_dist) =
     (if new_idx \<in> used then (best_new_idx, best_dist)
      else let dist = euclid x_old y_old x_new y_new
           in if dist > max_jump_dist then (best_new_idx, best_dist)
              else if fless (Fin dist) best_dist then (Some new_idx, Fin dist)
              else (best_new_idx, best_dist))"

definition find_nearest :: "nat set \<Rightarrow> real \<Rightarrow> real \<Rightarrow> det list \<Rightarrow> nat option" where
  "find_nearest used x_old y_old detections =
     fst (fold (nearest_step used x_old y_old) (List.enumerate 0 detections) (None, PInf))"

text \<open>
  The dict \<^verbatim>\<open>assignment\<close> is kept as the list of its items in insertion order; every
  \<^verbatim>\<open>old_idx\<close> is inserted at most once.
\<close>

fun match_step :: "det list \<Rightarrow> nat \<times> det \<Rightarrow> (nat \<times> nat) list \<times> nat set \<Rightarrow> (nat \<times> nat) list \<times> nat set" where
  "match_step detections (old_idx, (x_old, y_old, c)) (assignment, used) =
     (case find_nearest used x_old y_old detections of
        None \<Rightarrow> (assignment, used)
      | Some best_new_idx \<Rightarrow> (assignment @ [(old_idx, best_new_idx)], insert best_new_idx used))"

definition match_slots :: "det list \<Rightarrow> det list \<Rightarrow> (nat \<times> nat) list \<times> nat set" where
  "match_slots lastp detections =
     fold (match_step detections) (List.enumerate 0 lastp) ([], {})"

text \<open>\<^verbatim>\<open>self.led_trajectory[i].append((x, y))\<close>: a missing key raises.\<close>

definition traj_append :: "(nat \<rightharpoonup> (real \<times> real) list) \<Rightarrow> nat \<Rightarrow> real \<times> real \<Rightarrow> error + (nat \<rightharpoonup> (real \<times> real) list)" where
  "traj_append traj i p =
     (case traj i of None \<Rightarrow> Inl KeyError | Some h \<Rightarrow> Inr (traj(i \<mapsto> h @ [p])))"

text \<open>
  The two filling loops write \<^verbatim>\<open>assigned_detections[k]\<close>, \<^verbatim>\<open>assigned_ids[k]\<close> and append to the
  history of one id; \<open>(led_id, k)\<close> is the pair (id, index of the current point). Both lists
  start as \<^verbatim>\<open>[None] * len(detections)\<close>.
\<close>

type_synonym fill_state = "det option list \<times> nat option list \<times> (nat \<rightharpoonup> (real \<times> real) list)"

fun fill_loop :: "det list \<Rightarrow> (nat \<times> nat) list \<Rightarrow> fill_state \<Rightarrow> error + fill_state" where
  "fill_loop detections [] st = Inr st"
| "fill_loop detections ((led_id, k) # rest) (assigned_detections, assigned_ids, traj) =
     (if k \<ge> length detections \<or> k \<ge> length assigned_detections \<or> k \<ge> length assigned_ids
      then Inl IndexError
      else (case traj_append traj led_id (det_x (detections ! k), det_y (detections ! k)) of
              Inl e \<Rightarrow> Inl e
            | Inr traj' \<Rightarrow>
                fill_loop detections rest
                  (assigned_detections[k := Some (detections ! k)],
                   assigned_ids[k := Some led_id], traj')))"

definition unassigned_ids_of :: "(nat \<times> nat) list \<Rightarrow> nat list" where
  "unassigned_ids_of assignment =
     (let assigned_indices = set (filter (\<lambda>old_idx. old_idx < 3) (map fst assignment))
      in filter (\<lambda>i. i \<notin> assigned_indices) [0..<expected_leds])"

definition unassigned_dets_of :: "det option list \<Rightarrow> nat list" where
  "unassigned_dets_of assigned_detections =
     map fst (filter (\<lambda>(i, d). d = None) (List.enumerate 0 assigned_detections))"

text \<open>
  The result lists may hold \<^verbatim>\<open>None\<close> in the source, so they are lists of options; the two early
  returns hand back plain lists, which are lists of \<open>Some\<close>. On the first frame with three
  points the source only appends \<^verbatim>\<open>(x, y)\<close> of point \<open>i\<close> to the history of id \<open>i\<close>: the
  filling loop over the pairs \<open>(i, i)\<close>, of which only the history is kept. The last loop runs
  over \<^verbatim>\<open>zip(unassigned_dets, unassigned_ids)\<close>; the model pairs the same entries as
  \<open>(led_id, det_idx)\<close>.
\<close>

definition assign_led_ids_robust ::
  "tracker \<Rightarrow> det list \<Rightarrow> error + ((det option list \<times> nat option list) \<times> tracker)" where
  "assign_led_ids_robust s dets =
     (let detections = sort_by_x dets
      in if length detections \<noteq> expected_leds
         then Inr ((map Some detections, map Some [0..<length detections]), s)
         else (case last_positions s of
                 None \<Rightarrow>
                   (case fill_loop detections (map (\<lambda>i. (i, i)) [0..<length detections])
                           (replicate (length detections) None,
                            replicate (length detections) None, led_trajectory s) of
                      Inl e \<Rightarrow> Inl e
                    | Inr (ad, ai, traj) \<Rightarrow>
                        Inr ((map Some detections, map Some [0..<length detections]),
                             s\<lparr>last_positions := Some detections, led_trajectory := traj\<rparr>))
               | Some lastp \<Rightarrow>
                   (let assignment = fst (match_slots lastp detections)
                    in case fill_loop detections assignment
                              (replicate (length detections) None,
                               replicate (length detections) None, led_trajectory s) of
                         Inl e \<Rightarrow> Inl e
                       | Inr (ad, ai, traj) \<Rightarrow>
                           (case fill_loop detections
                                   (zip (unassigned_ids_of assignment) (unassigned_dets_of ad))
                                   (ad, ai, traj) of
                              Inl e \<Rightarrow> Inl e
                            | Inr (ad', ai', traj') \<Rightarrow>
                                Inr ((ad', ai'),
                                     s\<lparr>last_positions := Some detections,
                                       led_trajectory := traj'\<rparr>)))))"

section \<open>\<^verbatim>\<open>RobustLEDDetector.detect\<close>\<close>

text \<open>
  The four extractors are image processing; their outputs are the input of the model. Unpacking
  a \<^verbatim>\<open>None\<close> entry in the list comprehension raises.
\<close>

fun unpack_leds :: "det option list \<Rightarrow> error + LEDDetection list" where
  "unpack_leds [] = Inr []"
| "unpack_leds (None # rest) = Inl TypeError"
| "unpack_leds (Some (x, y, conf) # rest) =
     (case unpack_leds rest of
        Inl e \<Rightarrow> Inl e
      | Inr leds \<Rightarrow> Inr (\<lparr>led_x = x, led_y = y, led_confidence = conf,
                          led_method = ''Combinado''\<rparr> # leds))"

definition cap_detections :: "det list \<Rightarrow> det list" where
  "cap_detections detections =
     (if length detections > expected_leds then take expected_leds detections else detections)"

definition detect ::
  "tracker \<Rightarrow> det list list \<Rightarrow> error + ((bool \<times> LEDDetection list \<times> nat option list) \<times> tracker)" where
  "detect s extracted =
     (let detections = cap_detections (merge_detections extracted)
      in case assign_led_ids_robust s detections of
           Inl e \<Rightarrow> Inl e
         | Inr ((detections', led_ids), s') \<Rightarrow>
             (case unpack_leds detections' of
                Inl e \<Rightarrow> Inl e
              | Inr leds \<Rightarrow>
                  Inr ((length leds = expected_leds, leds, led_ids),
                       s'\<lparr>frame_count := frame_count s' + 1\<rparr>)))"

section \<open>Strict detector: \<^verbatim>\<open>StrictLEDDetector\<close>\<close>

text \<open>The constructor's parameters that the geometric validation reads, with their defaults.\<close>

record config =
  max_collinearity_error :: real
  spacing_tolerance :: real
  min_led_distance :: real
  max_led_distance :: real

definition default_config :: config where
  "default_config = \<lparr> max_collinearity_error = 5, spacing_tolerance = 1 / 10,
                       min_led_distance = 50, max_led_distance = 400 \<rparr>"

text \<open>The two-element numpy arrays and the operations used on them.\<close>

type_synonym vec = "real \<times> real"

definition vsub :: "vec \<Rightarrow> vec \<Rightarrow> vec" where
  "vsub a b = (fst a - fst b, snd a - snd b)"

definition vadd :: "vec \<Rightarrow> vec \<Rightarrow> vec" where
  "vadd a b = (fst a + fst b, snd a + snd b)"

definition smul :: "real \<Rightarrow> vec \<Rightarrow> vec" where
  "smul t a = (t * fst a, t * snd a)"

definition dot :: "vec \<Rightarrow> vec \<Rightarrow> real" where
  "dot a b = fst a * fst b + snd a * snd b"

definition vnorm :: "vec \<Rightarrow> real" where
  "vnorm a = sqrt ((fst a)\<^sup>2 + (snd a)\<^sup>2)"

text \<open>
  \<^verbatim>\<open>_calculate_geometry\<close> returns \<^verbatim>\<open>(collinearity_error, spacing_ratio, d12, d23)\<close>. Indexing
  \<^verbatim>\<open>sorted_t[2]\<close> raises on a list shorter than three.
\<close>

definition calculate_geometry :: "det list \<Rightarrow> error + (pyfloat \<times> pyfloat \<times> real \<times> real)" where
  "calculate_geometry triplet =
     (let sorted_t = sort_by_x triplet
      in if length sorted_t < 3 then Inl IndexError
         else
           let p1 = (det_x (sorted_t ! 0), det_y (sorted_t ! 0));
               p2 = (det_x (sorted_t ! 1), det_y (sorted_t ! 1));
               p3 = (det_x (sorted_t ! 2), det_y (sorted_t ! 2));
               d12 = vnorm (vsub p2 p1);
               d23 = vnorm (vsub p3 p2)
           in if d12 < 1 \<or> d23 < 1 then Inr (PInf, PInf, 0, 0)
              else
                let spacing_ratio = d12 / d23;
                    line_vec = vsub p3 p1;
                    line_len = vnorm line_vec
                in if line_len < 1 then Inr (PInf, PInf, 0, 0)
                   else
                     let t = dot (vsub p2 p1) line_vec / line_len\<^sup>2;
                         closest_point = vadd p1 (smul t line_vec);
                         collinearity_error = vnorm (vsub p2 closest_point)
                     in Inr (Fin collinearity_error, Fin spacing_ratio, d12, d23))"

definition validate_triplet :: "config \<Rightarrow> det list \<Rightarrow> error + bool" where
  "validate_triplet cfg triplet =
     (case calculate_geometry triplet of
        Inl e \<Rightarrow> Inl e
      | Inr (col_error, spacing_ratio, d12, d23) \<Rightarrow>
          if fless (Fin (max_collinearity_error cfg)) col_error then Inr False
          else if fless spacing_ratio (Fin (1 - spacing_tolerance cfg)) \<or>
                  fless (Fin (1 + spacing_tolerance cfg)) spacing_ratio then Inr False
          else if d12 < min_led_distance cfg \<or> d12 > max_led_distance cfg then Inr False
          else if d23 < min_led_distance cfg \<or> d23 > max_led_distance cfg then Inr False
          else Inr True)"

text \<open>\<^verbatim>\<open>itertools.combinations(blobs, k)\<close>: the sublists of length \<open>k\<close>, in lexicographic
  order of their positions.\<close>

fun combinations :: "nat \<Rightarrow> 'a list \<Rightarrow> 'a list list" where
  "combinations 0 xs = [[]]"
| "combinations (Suc k) [] = []"
| "combinations (Suc k) (x # xs) = map ((#) x) (combinations k xs) @ combinations (Suc k) xs"

text \<open>\<^verbatim>\<open>col_error + abs(spacing_ratio - 1.0) * 10\<close> on floats that may be infinite.\<close>

fun score_of :: "pyfloat \<Rightarrow> pyfloat \<Rightarrow> pyfloat" where
  "score_of (Fin col_error) (Fin spacing_ratio) = Fin (col_error + \<bar>spacing_ratio - 1\<bar> * 10)"
| "score_of PInf r = PInf"
| "score_of c PInf = PInf"

fun best_loop :: "config \<Rightarrow> det list list \<Rightarrow> det list option \<times> pyfloat \<Rightarrow> error + (det list option \<times> pyfloat)" where
  "best_loop cfg [] st = Inr st"
| "best_loop cfg (triplet_list # rest) (best_triplet, best_score) =
     (case validate_triplet cfg triplet_list of
        Inl e \<Rightarrow> Inl e
      | Inr False \<Rightarrow> best_loop cfg rest (best_triplet, best_score)
      | Inr True \<Rightarrow>
          (case calculate_geometry triplet_list of
             Inl e \<Rightarrow> Inl e
           | Inr (col_error, spacing_ratio, d12, d23) \<Rightarrow>
               (let score = score_of col_error spacing_ratio
                in if fless score best_score
                   then best_loop cfg rest (Some triplet_list, score)
                   else best_loop cfg rest (best_triplet, best_score))))"

definition find_best_triplet :: "config \<Rightarrow> det list \<Rightarrow> error + det list option" where
  "find_best_triplet cfg blobs =
     (if length blobs < 3 then Inr None
      else (case best_loop cfg (combinations 3 blobs) (None, PInf) of
              Inl e \<Rightarrow> Inl e
            | Inr (best_triplet, best_score) \<Rightarrow> Inr best_triplet))"

record StrictLED =
  sx :: real
  sy :: real
  sconfidence :: real
  led_id :: nat

text \<open>
  The Kalman filter is OpenCV's; the model takes it as two parameters, \<open>kinit\<close> building the filter
  state from a first measurement and \<open>kupdate\<close> doing \<^verbatim>\<open>predict\<close> and \<^verbatim>\<open>correct\<close> and returning
  the smoothed position with the new filter state.
\<close>

record 'k strict_state =
  trackers :: "nat \<rightharpoonup> 'k"
  strict_frame_count :: nat
  last_valid_detection :: "StrictLED list option"

fun smooth_loop ::
  "(real \<Rightarrow> real \<Rightarrow> 'k) \<Rightarrow> ('k \<Rightarrow> real \<Rightarrow> real \<Rightarrow> (real \<times> real) \<times> 'k) \<Rightarrow>
   (nat \<times> det) list \<Rightarrow> (nat \<rightharpoonup> 'k) \<Rightarrow> StrictLED list \<times> (nat \<rightharpoonup> 'k)" where
  "smooth_loop kinit kupdate [] trk = ([], trk)"
| "smooth_loop kinit kupdate ((i, (x, y, conf)) # rest) trk =
     (case trk i of
        None \<Rightarrow>
          (case smooth_loop kinit kupdate rest (trk(i \<mapsto> kinit x y)) of
             (leds, trk') \<Rightarrow> (\<lparr>sx = x, sy = y, sconfidence = conf, led_id = i\<rparr> # leds, trk'))
      | Some k \<Rightarrow>
          (case kupdate k x y of
             ((smoothed_x, smoothed_y), k') \<Rightarrow>
               (case smooth_loop kinit kupdate rest (trk(i \<mapsto> k')) of
                  (leds, trk') \<Rightarrow>
                    (\<lparr>sx = smoothed_x, sy = smoothed_y, sconfidence = conf, led_id = i\<rparr> # leds,
                     trk'))))"

text \<open>\<^verbatim>\<open>StrictLEDDetector.detect\<close>, from the blobs found in the frame on.\<close>

definition strict_detect ::
  "(real \<Rightarrow> real \<Rightarrow> 'k) \<Rightarrow> ('k \<Rightarrow> real \<Rightarrow> real \<Rightarrow> (real \<times> real) \<times> 'k) \<Rightarrow> config \<Rightarrow>
   'k strict_state \<Rightarrow> det list \<Rightarrow>
   error + ((bool \<times> StrictLED list \<times> pyfloat \<times> pyfloat) \<times> 'k strict_state)" where
  "strict_detect kinit kupdate cfg s blobs =
     (case find_best_triplet cfg blobs of
        Inl e \<Rightarrow> Inl e
      | Inr None \<Rightarrow>
          Inr ((False, [], PInf, PInf), s\<lparr>strict_frame_count := strict_frame_count s + 1\<rparr>)
      | Inr (Some triplet) \<Rightarrow>
          (case calculate_geometry triplet of
             Inl e \<Rightarrow> Inl e
           | Inr (col_error, spacing_ratio, d12, d23) \<Rightarrow>
               (case smooth_loop kinit kupdate (List.enumerate 0 (sort_by_x triplet)) (trackers s) of
                  (leds, trk') \<Rightarrow>
                    Inr ((True, leds, col_error, spacing_ratio),
                         s\<lparr>trackers := trk', last_valid_detection := Some leds,
                           strict_frame_count := strict_frame_count s + 1\<rparr>))))"

section \<open>Outlier filter: \<^verbatim>\<open>VideoProcessor.calculate_error_statistics\<close>\<close>

text \<open>
  \<^verbatim>\<open>np.percentile(a, q)\<close> with numpy's default linear interpolation: on the sorted sample of
  size \<open>n\<close> the virtual index is \<open>q / 100 * (n - 1)\<close>, and the result interpolates between
  the two neighbouring order statistics. The caller never passes an empty sample.
\<close>

definition percentile :: "real list \<Rightarrow> real \<Rightarrow> real" where
  "percentile a q =
     (let s = sort a;
          n = length s;
          pos = q / 100 * real (n - 1);
          lo = nat \<lfloor>pos\<rfloor>;
          hi = min (lo + 1) (n - 1);
          frac = pos - real lo
      in s ! lo + frac * (s ! hi - s ! lo))"

text \<open>The elementwise \<^verbatim>\<open>&\<close> of two boolean arrays and the boolean indexing \<^verbatim>\<open>positions[mask]\<close>.\<close>

definition mask_and :: "bool list \<Rightarrow> bool list \<Rightarrow> bool list" where
  "mask_and m1 m2 = map2 (\<and>) m1 m2"

definition bool_index :: "'a list \<Rightarrow> bool list \<Rightarrow> 'a list" where
  "bool_index a valid = map snd (filter fst (zip valid a))"

definition valid_mask :: "(real \<times> real) list \<Rightarrow> bool list" where
  "valid_mask positions =
     (let xs = map fst positions;
          ys = map snd positions;
          q1_x = percentile xs 25; q3_x = percentile xs 75;
          q1_y = percentile ys 25; q3_y = percentile ys 75;
          iqr_x = q3_x - q1_x; iqr_y = q3_y - q1_y
      in mask_and
           (mask_and
              (mask_and (map (\<lambda>x. x \<ge> q1_x - 3 * iqr_x) xs) (map (\<lambda>x. x \<le> q3_x + 3 * iqr_x) xs))
              (map (\<lambda>y. y \<ge> q1_y - 3 * iqr_y) ys))
           (map (\<lambda>y. y \<le> q3_y + 3 * iqr_y) ys))"

text \<open>The entry of \<^verbatim>\<open>led_positions_filtered\<close> for one id, from that id's collected positions.\<close>

definition filter_outliers :: "(real \<times> real) list \<Rightarrow> (real \<times> real) list" where
  "filter_outliers positions =
     (if positions = [] then [] else bool_index positions (valid_mask positions))"

text \<open>\<^verbatim>\<open>np.mean\<close> and \<^verbatim>\<open>np.std\<close> (the population standard deviation) of a one-dimensional array.\<close>

definition np_mean :: "real list \<Rightarrow> real" where
  "np_mean v = sum_list v / real (length v)"

definition np_std :: "real list \<Rightarrow> real" where
  "np_std v = sqrt (np_mean (map (\<lambda>a. \<bar>a - np_mean v\<bar>\<^sup>2) v))"

record led_stats =
  detected_frames :: nat
  mean_position :: "(real \<times> real) option"
  std_deviation :: "real option"
  std_x :: "real option"
  std_y :: "real option"
  min_x :: "real option"
  max_x :: "real option"
  min_y :: "real option"
  max_y :: "real option"
  range_x :: "real option"
  range_y :: "real option"

text \<open>The statistics of one id, computed from its filtered positions.\<close>

definition led_statistics :: "(real \<times> real) list \<Rightarrow> led_stats" where
  "led_statistics positions =
     (if length positions = 0
      then \<lparr> detected_frames = 0, mean_position = None, std_deviation = None,
             std_x = None, std_y = None, min_x = None, max_x = None, min_y = None,
             max_y = None, range_x = None, range_y = None \<rparr>
      else
        let xs = map fst positions;
            ys = map snd positions;
            mean_pos = (np_mean xs, np_mean ys);
            deviations = map (\<lambda>(x, y). sqrt ((x - fst mean_pos)\<^sup>2 + (y - snd mean_pos)\<^sup>2)) positions
        in \<lparr> detected_frames = length positions,
             mean_position = Some mean_pos,
             std_deviation = Some (np_std deviations),
             std_x = Some (np_std xs), std_y = Some (np_std ys),
             min_x = Some (Min (set xs)), max_x = Some (Max (set xs)),
             min_y = Some (Min (set ys)), max_y = Some (Max (set ys)),
             range_x = Some (Max (set xs) - Min (set xs)),
             range_y = Some (Max (set ys) - Min (set ys)) \<rparr>)"

definition error_statistics_of :: "(real \<times> real) list \<Rightarrow> led_stats" where
  "error_statistics_of positions = led_statistics (filter_outliers positions)"

section \<open>Notions the properties are stated with\<close>

text \<open>The score \<^verbatim>\<open>_find_best_triplet\<close> computes for a triplet that passed validation.\<close>

definition triplet_score :: "det list \<Rightarrow> pyfloat" where
  "triplet_score triplet =
     (case calculate_geometry triplet of
        Inl e \<Rightarrow> PInf
      | Inr (col_error, spacing_ratio, d12, d23) \<Rightarrow> score_of col_error spacing_ratio)"

text \<open>
  The geometric validator as the specification words it, written without the code's vector
  helpers. The distance of two points is the Euclidean one.
\<close>

definition spec_dist :: "vec \<Rightarrow> vec \<Rightarrow> real" where
  "spec_dist p q = sqrt ((fst q - fst p)\<^sup>2 + (snd q - snd p)\<^sup>2)"

text \<open>
  The perpendicular distance of \<open>p2\<close> from the line through \<open>p1\<close> and \<open>p3\<close>: twice the area of
  the triangle over the length of its base. It is the least distance from \<open>p2\<close> to a point
  of that line (\<open>spec_line_distance_least\<close>, \<open>spec_line_distance_attained\<close>).
\<close>

definition spec_line_distance :: "vec \<Rightarrow> vec \<Rightarrow> vec \<Rightarrow> real" where
  "spec_line_distance p1 p3 p2 =
     \<bar>(fst p3 - fst p1) * (snd p2 - snd p1) - (snd p3 - snd p1) * (fst p2 - fst p1)\<bar> /
     spec_dist p1 p3"

text \<open>
  The triplet is sorted by x-coordinate to fix \<open>p1\<close>, \<open>p2\<close>, \<open>p3\<close>; \<open>spec_point t k\<close> is the
  position of the point of rank \<open>k\<close>. Then \<open>d12 = |p2 - p1|\<close>, \<open>d23 = |p3 - p2|\<close>,
  \<open>spacing_ratio = d12 / d23\<close> and \<open>collinearity_error\<close> is the perpendicular distance of
  \<open>p2\<close> from the line through \<open>p1\<close> and \<open>p3\<close>.
\<close>

definition spec_point :: "det list \<Rightarrow> nat \<Rightarrow> vec" where
  "spec_point triplet k = (let d = sort_key fst triplet ! k in (fst d, fst (snd d)))"

definition spec_d12 :: "det list \<Rightarrow> real" where
  "spec_d12 t = spec_dist (spec_point t 0) (spec_point t 1)"

definition spec_d23 :: "det list \<Rightarrow> real" where
  "spec_d23 t = spec_dist (spec_point t 1) (spec_point t 2)"

definition spec_spacing_ratio :: "det list \<Rightarrow> real" where
  "spec_spacing_ratio t = spec_d12 t / spec_d23 t"

definition spec_collinearity_error :: "det list \<Rightarrow> real" where
  "spec_collinearity_error t = spec_line_distance (spec_point t 0) (spec_point t 2) (spec_point t 1)"

text \<open>
  A triplet is degenerate when a consecutive distance or the baseline is near zero (below one
  pixel); such a triplet is excluded from selection. A triplet passes when it is not
  degenerate, both consecutive distances lie between the minimum and the maximum separation,
  the spacing ratio lies in \<open>[1 - \<tau>, 1 + \<tau>]\<close> and the collinearity error does not exceed
  its tolerance.
\<close>

definition spec_near_zero :: "det list \<Rightarrow> bool" where
  "spec_near_zero t =
     (spec_d12 t < 1 \<or> spec_d23 t < 1 \<or> spec_dist (spec_point t 0) (spec_point t 2) < 1)"

definition spec_passes :: "config \<Rightarrow> det list \<Rightarrow> bool" where
  "spec_passes cfg t =
     (\<not> spec_near_zero t \<and>
      min_led_distance cfg \<le> spec_d12 t \<and> spec_d12 t \<le> max_led_distance cfg \<and>
      min_led_distance cfg \<le> spec_d23 t \<and> spec_d23 t \<le> max_led_distance cfg \<and>
      1 - spacing_tolerance cfg \<le> spec_spacing_ratio t \<and>
      spec_spacing_ratio t \<le> 1 + spacing_tolerance cfg \<and>
      spec_collinearity_error t \<le> max_collinearity_error cfg)"

text \<open>\<open>score = collinearity_error + 10 * |spacing_ratio - 1|\<close>\<close>

definition spec_score :: "det list \<Rightarrow> real" where
  "spec_score t = spec_collinearity_error t + 10 * \<bar>spec_spacing_ratio t - 1\<bar>"

text \<open>
  A degenerate triplet: after sorting by x, one of the two consecutive distances or the
  baseline from the first to the third point is below one pixel.
\<close>

definition degenerate :: "det list \<Rightarrow> bool" where
  "degenerate triplet =
     (let sorted_t = sort_by_x triplet;
          p1 = (det_x (sorted_t ! 0), det_y (sorted_t ! 0));
          p2 = (det_x (sorted_t ! 1), det_y (sorted_t ! 1));
          p3 = (det_x (sorted_t ! 2), det_y (sorted_t ! 2))
      in vnorm (vsub p2 p1) < 1 \<or> vnorm (vsub p3 p2) < 1 \<or> vnorm (vsub p3 p1) < 1)"


text \<open>
  The current points already claimed when slot \<open>old_idx\<close> is processed: the set \<^verbatim>\<open>used\<close>
  after the outer loop has run over the slots before it.
\<close>

definition claimed_before :: "det list \<Rightarrow> det list \<Rightarrow> nat \<Rightarrow> nat set" where
  "claimed_before lastp detections old_idx = snd (match_slots (take old_idx lastp) detections)"

text \<open>
  What every tracker reached from \<open>init_tracker\<close> satisfies: \<^verbatim>\<open>last_positions\<close> is \<^verbatim>\<open>None\<close> or has
  three entries, and the history has the keys 0, 1 and 2.
\<close>

definition tracker_ok :: "tracker \<Rightarrow> bool" where
  "tracker_ok s =
     ((case last_positions s of None \<Rightarrow> True | Some lastp \<Rightarrow> length lastp = expected_leds) \<and>
      {0, 1, 2} \<subseteq> dom (led_trajectory s))"

text \<open>
  A value lies within the outlier bounds of a sample: between \<open>Q1 - 3 IQR\<close> and
  \<open>Q3 + 3 IQR\<close>, with \<open>Q1\<close> and \<open>Q3\<close> the 25th and 75th percentile and \<open>IQR = Q3 - Q1\<close>.
\<close>

definition within_iqr_bounds :: "real list \<Rightarrow> real \<Rightarrow> bool" where
  "within_iqr_bounds v a =
     (let q1 = percentile v 25; q3 = percentile v 75; iqr = q3 - q1
      in q1 - 3 * iqr \<le> a \<and> a \<le> q3 + 3 * iqr)"

definition retained :: "(real \<times> real) list \<Rightarrow> real \<times> real \<Rightarrow> bool" where
  "retained positions p =
     (within_iqr_bounds (map fst positions) (fst p) \<and> within_iqr_bounds (map snd positions) (snd p))"

text \<open>
  The invariant of the scan of one slot over the current points seen so far: nothing chosen
  and nothing eligible yet, or the chosen index is an unclaimed point within the maximum-jump
  distance that no eligible point seen so far beats.
\<close>

definition nearest_inv :: "nat set \<Rightarrow> real \<Rightarrow> real \<Rightarrow> (nat \<times> det) list \<Rightarrow> nat option \<times> pyfloat \<Rightarrow> bool" where
  "nearest_inv used xo yo seen st =
     (case st of
        (None, bd) \<Rightarrow>
          bd = PInf \<and>
          (\<forall>(i, d) \<in> set seen. i \<in> used \<or> euclid xo yo (det_x d) (det_y d) > max_jump_dist)
      | (Some j, bd) \<Rightarrow>
          (\<exists>d. (j, d) \<in> set seen \<and> j \<notin> used \<and>
               euclid xo yo (det_x d) (det_y d) \<le> max_jump_dist \<and>
               bd = Fin (euclid xo yo (det_x d) (det_y d)) \<and>
               (\<forall>(i, d') \<in> set seen. i \<notin> used \<and>
                    euclid xo yo (det_x d') (det_y d') \<le> max_jump_dist \<longrightarrow>
                    euclid xo yo (det_x d) (det_y d) \<le> euclid xo yo (det_x d') (det_y d'))))"

text \<open>
  The invariant of the loop over the slots: \<^verbatim>\<open>used\<close> is the set of claimed points, no slot and
  no point occurs twice, every pair is what the scan of that slot returned, and every slot
  without a pair had an empty scan.
\<close>

definition match_inv :: "det list \<Rightarrow> det list \<Rightarrow> (nat \<times> nat) list \<times> nat set \<Rightarrow> bool" where
  "match_inv L D st =
     (case st of (A, used) \<Rightarrow>
        used = snd ` set A \<and> distinct (map snd A) \<and> distinct (map fst A) \<and>
        (\<forall>(q, j) \<in> set A. q < length L \<and> j < length D \<and>
            find_nearest (claimed_before L D q) (det_x (L ! q)) (det_y (L ! q)) D = Some j) \<and>
        (\<forall>q < length L. q \<notin> fst ` set A \<longrightarrow>
            find_nearest (claimed_before L D q) (det_x (L ! q)) (det_y (L ! q)) D = None))"

text \<open>
  Fusion as the specification words it: take the highest-confidence unused point as cluster
  seed, absorb every remaining unused point within the merge radius, and go on with the points
  that are left. \<open>near s d\<close> says that \<open>d\<close> lies within the merge radius of the seed \<open>s\<close>; the
  list is the candidates in descending order of confidence.
\<close>

definition near :: "det \<Rightarrow> det \<Rightarrow> bool" where
  "near s d = (euclid (det_x s) (det_y s) (det_x d) (det_y d) < distance_threshold)"

fun greedy_clusters :: "det list \<Rightarrow> det list list" where
  "greedy_clusters [] = []"
| "greedy_clusters (s # rest) =
     (s # filter (near s) rest) # greedy_clusters (filter (\<lambda>d. \<not> near s d) rest)"

text \<open>The points of an enumerated list whose index is not in \<^verbatim>\<open>used\<close>.\<close>

definition unused :: "nat set \<Rightarrow> (nat \<times> det) list \<Rightarrow> det list" where
  "unused U es = map snd (filter (\<lambda>(j, x). j \<notin> U) es)"

section \<open>Theorems\<close>

lemma unpack_leds_length: "unpack_leds ds = Inr leds \<Longrightarrow> length leds = length ds"
proof (induction ds arbitrary: leds rule: unpack_leds.induct)
  case 1
  then show ?case by simp
next
  case (2 rest)
  then show ?case by simp
next
  case (3 x y conf rest)
  then show ?case by (auto split: sum.splits)
qed

subsection \<open>Evaluating square roots\<close>

lemma sqrt_le_iff: "0 \<le> b \<Longrightarrow> (sqrt a \<le> b) = (a \<le> b\<^sup>2)"
  by (metis real_sqrt_le_iff real_sqrt_abs abs_of_nonneg)

lemma sqrt_less_iff: "0 \<le> b \<Longrightarrow> (sqrt a < b) = (a < b\<^sup>2)"
  by (metis real_sqrt_less_iff real_sqrt_abs abs_of_nonneg)

lemma less_sqrt_iff: "0 \<le> b \<Longrightarrow> (b < sqrt a) = (b\<^sup>2 < a)"
  by (metis real_sqrt_less_iff real_sqrt_abs abs_of_nonneg)

lemma le_sqrt_iff: "0 \<le> b \<Longrightarrow> (b \<le> sqrt a) = (b\<^sup>2 \<le> a)"
  by (metis real_sqrt_le_iff real_sqrt_abs abs_of_nonneg)

subsection \<open>Lengths\<close>

lemma length_sort_by_x: "length (sort_by_x ds) = length ds"
  by (simp add: sort_by_x_def)

lemma combinations_length: "t \<in> set (combinations k xs) \<Longrightarrow> length t = k"
  by (induction k xs arbitrary: t rule: combinations.induct) auto

lemma smooth_loop_length:
  "smooth_loop kinit kupdate es trk = (leds, trk') \<Longrightarrow> length leds = length es"
  by (induction kinit kupdate es trk arbitrary: leds trk' rule: smooth_loop.induct)
     (auto split: option.splits prod.splits)

lemma best_loop_mem:
  "best_loop cfg ts (bt, bs) = Inr (Some t, sc) \<Longrightarrow> t \<in> set ts \<or> bt = Some t"
proof (induction ts arbitrary: bt bs)
  case Nil
  then show ?case by simp
next
  case (Cons a ts)
  then show ?case
    by (fastforce split: sum.splits bool.splits prod.splits if_splits simp: Let_def)
qed

lemma find_best_triplet_mem:
  assumes "find_best_triplet cfg blobs = Inr (Some t)"
  shows "t \<in> set (combinations 3 blobs)"
proof -
  from assms obtain sc where "best_loop cfg (combinations 3 blobs) (None, PInf) = Inr (Some t, sc)"
    by (auto simp: find_best_triplet_def split: if_splits sum.splits)
  then show ?thesis
    using best_loop_mem by fastforce
qed

subsection \<open>Success means three detections\<close>

text \<open>
  C1. In both detectors a frame's result has \<open>success = True\<close> exactly when it carries three
  detections: the robust detector sets \<open>success\<close> to \<open>len(leds) == 3\<close>, the strict detector
  returns either \<open>False\<close> with the empty list or \<open>True\<close> with the three points of a validated
  triplet. So a successful result always carries exactly three detections.
\<close>

theorem success_iff_three_detections:
  "(detect s extracted = Inr ((ok, leds, ids), s') \<longrightarrow> ok = (length leds = 3)) \<and>
   (strict_detect kinit kupdate cfg st blobs = Inr ((ok2, sleds, ce, sr), st') \<longrightarrow>
      ok2 = (length sleds = 3))"
proof
  show "detect s extracted = Inr ((ok, leds, ids), s') \<longrightarrow> ok = (length leds = 3)"
    by (auto simp: detect_def Let_def expected_leds_def split: sum.splits prod.splits)
next
  show "strict_detect kinit kupdate cfg st blobs = Inr ((ok2, sleds, ce, sr), st') \<longrightarrow>
      ok2 = (length sleds = 3)"
  proof
    assume a: "strict_detect kinit kupdate cfg st blobs = Inr ((ok2, sleds, ce, sr), st')"
    show "ok2 = (length sleds = 3)"
    proof (cases "find_best_triplet cfg blobs")
      case (Inl e)
      with a show ?thesis by (simp add: strict_detect_def)
    next
      case (Inr r)
      show ?thesis
      proof (cases r)
        case None
        with a Inr show ?thesis by (auto simp: strict_detect_def)
      next
        case (Some t)
        with Inr have len: "length t = 3"
          using find_best_triplet_mem combinations_length by blast
        from a Inr Some obtain trk' where
          "smooth_loop kinit kupdate (List.enumerate 0 (sort_by_x t)) (trackers st) = (sleds, trk')"
          and "ok2"
          by (auto simp: strict_detect_def split: sum.splits prod.splits)
        then show ?thesis
          using smooth_loop_length[of kinit kupdate "List.enumerate 0 (sort_by_x t)"
                  "trackers st" sleds trk'] len
          by (simp add: length_sort_by_x)
      qed
    qed
  qed
qed

subsection \<open>Frames without exactly three points\<close>

text \<open>
  C10. When the number of detections differs from 3, \<open>_assign_led_ids_robust\<close> returns the
  detections sorted by ascending x (a stable sort, so a permutation of the input) with the ids
  \<open>0..n-1\<close> in that order; the result does not depend on the tracker, and the tracker
  (\<open>last_positions\<close>, the per-id histories) is returned unchanged.
\<close>

theorem wrong_count_bypasses_tracking:
  "length dets \<noteq> 3 \<Longrightarrow>
     assign_led_ids_robust s dets =
       Inr ((map Some (sort_by_x dets), map Some [0..<length dets]), s) \<and>
     sorted (map det_x (sort_by_x dets)) \<and> mset (sort_by_x dets) = mset dets"
  by (simp add: assign_led_ids_robust_def Let_def expected_leds_def length_sort_by_x sort_by_x_def)

theorem wrong_count_bypasses_tracking_witness:
  "length [(5, 1, 1/2), (3, 2, 1/2) :: det] \<noteq> 3 \<and>
   assign_led_ids_robust init_tracker [(5, 1, 1/2), (3, 2, 1/2)] =
     Inr (([Some (3, 2, 1/2), Some (5, 1, 1/2)], [Some 0, Some 1]), init_tracker)"
  using wrong_count_bypasses_tracking [of "[(5, 1, 1/2), (3, 2, 1/2)]" init_tracker]
  by (simp add: sort_by_x_def det_x_def)

subsection \<open>The end-to-end scenario: three fused candidates on one line\<close>

lemmas det_simps = det_x_def det_y_def det_conf_def

lemmas vec_simps = vsub_def vadd_def smul_def dot_def vnorm_def

lemma sqrt_eq_num: "0 \<le> b \<Longrightarrow> b\<^sup>2 = a \<Longrightarrow> sqrt a = b"
  by (simp add: real_sqrt_unique)

lemma merge_three_apart:
  "merge_detections [[(100, 300, 9/10), (200, 300, 23/25), (300, 300, 22/25)]]
   = [(200, 300, 23/25), (100, 300, 9/10), (300, 300, 22/25)]"
  by (simp add: merge_detections_def sort_by_conf_desc_def det_simps merge_clusters_def
     build_cluster_def euclid_def distance_threshold_def fuse_def sqrt_less_iff)

lemma assign_first_frame:
  "assign_led_ids_robust init_tracker [(200, 300, 23/25), (100, 300, 9/10), (300, 300, 22/25)]
   = Inr (([Some (100, 300, 9/10), Some (200, 300, 23/25), Some (300, 300, 22/25)],
           [Some 0, Some 1, Some 2]),
      \<lparr> last_positions = Some [(100, 300, 9/10), (200, 300, 23/25), (300, 300, 22/25)],
        led_trajectory = [0 \<mapsto> [(100, 300)], 1 \<mapsto> [(200, 300)], 2 \<mapsto> [(300, 300)]],
        frame_count = 0 \<rparr>)"
  apply (simp add: assign_led_ids_robust_def init_tracker_def sort_by_x_def det_simps
      expected_leds_def traj_append_def upt_rec[of 0] upt_rec[of 1] upt_rec[of 2] upt_rec[of 3])
  apply (rule ext)
  apply simp
  done

lemma detect_first_frame:
  "detect init_tracker [[(100, 300, 9/10), (200, 300, 23/25), (300, 300, 22/25)]] =
     Inr ((True,
           [\<lparr>led_x = 100, led_y = 300, led_confidence = 9/10, led_method = ''Combinado''\<rparr>,
            \<lparr>led_x = 200, led_y = 300, led_confidence = 23/25, led_method = ''Combinado''\<rparr>,
            \<lparr>led_x = 300, led_y = 300, led_confidence = 22/25, led_method = ''Combinado''\<rparr>],
           [Some 0, Some 1, Some 2]),
          \<lparr> last_positions = Some [(100, 300, 9/10), (200, 300, 23/25), (300, 300, 22/25)],
            led_trajectory = [0 \<mapsto> [(100, 300)], 1 \<mapsto> [(200, 300)], 2 \<mapsto> [(300, 300)]],
            frame_count = 1 \<rparr>)"
  by (simp add: detect_def merge_three_apart cap_detections_def expected_leds_def
      assign_first_frame)

lemma geometry_line:
  "calculate_geometry [(100, 300, c1), (200, 300, c2), (300, 300, c3)] =
     Inr (Fin 0, Fin 1, 100, 100)"
proof -
  have s: "sqrt 10000 = 100" "sqrt 40000 = 200" by (rule sqrt_eq_num; simp)+
  show ?thesis
    by (simp add: calculate_geometry_def sort_by_x_def det_simps vec_simps Let_def s)
qed

lemma validate_line:
  "validate_triplet default_config [(100, 300, c1), (200, 300, c2), (300, 300, c3)] = Inr True"
  by (simp add: validate_triplet_def geometry_line default_config_def)

lemma best_line:
  "find_best_triplet default_config [(100, 300, c1), (200, 300, c2), (300, 300, c3)]
     = Inr (Some [(100, 300, c1), (200, 300, c2), (300, 300, c3)])"
  by (simp add: find_best_triplet_def numeral_3_eq_3 validate_line geometry_line)

lemma strict_line:
  "strict_detect (\<lambda>x y. ()) (\<lambda>k x y. ((x, y), k)) default_config
      \<lparr>trackers = Map.empty, strict_frame_count = 0, last_valid_detection = None\<rparr>
      [(100, 300, 9/10), (200, 300, 23/25), (300, 300, 22/25)] =
    Inr ((True, [\<lparr>sx = 100, sy = 300, sconfidence = 9/10, led_id = 0\<rparr>,
                 \<lparr>sx = 200, sy = 300, sconfidence = 23/25, led_id = 1\<rparr>,
                 \<lparr>sx = 300, sy = 300, sconfidence = 22/25, led_id = 2\<rparr>], Fin 0, Fin 1),
         \<lparr>trackers = [0 \<mapsto> (), 1 \<mapsto> (), 2 \<mapsto> ()], strict_frame_count = 1,
          last_valid_detection = Some [\<lparr>sx = 100, sy = 300, sconfidence = 9/10, led_id = 0\<rparr>,
                 \<lparr>sx = 200, sy = 300, sconfidence = 23/25, led_id = 1\<rparr>,
                 \<lparr>sx = 300, sy = 300, sconfidence = 22/25, led_id = 2\<rparr>]\<rparr>)"
  by (simp add: strict_detect_def best_line geometry_line sort_by_x_def det_simps
      numeral_2_eq_2)

theorem success_iff_three_detections_witness:
  "detect init_tracker [[(100, 300, 9/10), (200, 300, 23/25), (300, 300, 22/25)]] =
     Inr ((True,
           [\<lparr>led_x = 100, led_y = 300, led_confidence = 9/10, led_method = ''Combinado''\<rparr>,
            \<lparr>led_x = 200, led_y = 300, led_confidence = 23/25, led_method = ''Combinado''\<rparr>,
            \<lparr>led_x = 300, led_y = 300, led_confidence = 22/25, led_method = ''Combinado''\<rparr>],
           [Some 0, Some 1, Some 2]),
          \<lparr> last_positions = Some [(100, 300, 9/10), (200, 300, 23/25), (300, 300, 22/25)],
            led_trajectory = [0 \<mapsto> [(100, 300)], 1 \<mapsto> [(200, 300)], 2 \<mapsto> [(300, 300)]],
            frame_count = 1 \<rparr>) \<and>
   length [\<lparr>led_x = 100, led_y = 300, led_confidence = 9/10, led_method = ''Combinado''\<rparr>,
            \<lparr>led_x = 200, led_y = 300, led_confidence = 23/25, led_method = ''Combinado''\<rparr>,
            \<lparr>led_x = 300, led_y = 300, led_confidence = 22/25, led_method = ''Combinado''\<rparr>] = 3 \<and>
   strict_detect (\<lambda>x y. ()) (\<lambda>k x y. ((x, y), k)) default_config
      \<lparr>trackers = Map.empty, strict_frame_count = 0, last_valid_detection = None\<rparr>
      [(100, 300, 9/10), (200, 300, 23/25), (300, 300, 22/25)] =
    Inr ((True, [\<lparr>sx = 100, sy = 300, sconfidence = 9/10, led_id = 0\<rparr>,
                 \<lparr>sx = 200, sy = 300, sconfidence = 23/25, led_id = 1\<rparr>,
                 \<lparr>sx = 300, sy = 300, sconfidence = 22/25, led_id = 2\<rparr>], Fin 0, Fin 1),
         \<lparr>trackers = [0 \<mapsto> (), 1 \<mapsto> (), 2 \<mapsto> ()], strict_frame_count = 1,
          last_valid_detection = Some [\<lparr>sx = 100, sy = 300, sconfidence = 9/10, led_id = 0\<rparr>,
                 \<lparr>sx = 200, sy = 300, sconfidence = 23/25, led_id = 1\<rparr>,
                 \<lparr>sx = 300, sy = 300, sconfidence = 22/25, led_id = 2\<rparr>]\<rparr>) \<and>
   length [\<lparr>sx = 100, sy = 300, sconfidence = 9/10, led_id = 0\<rparr>,
           \<lparr>sx = 200, sy = 300, sconfidence = 23/25, led_id = 1\<rparr>,
           \<lparr>sx = 300, sy = 300, sconfidence = 22/25, led_id = 2\<rparr>] = 3"
  using success_iff_three_detections
    [of init_tracker "[[(100, 300, 9/10), (200, 300, 23/25), (300, 300, 22/25)]]" True
        "[\<lparr>led_x = 100, led_y = 300, led_confidence = 9/10, led_method = ''Combinado''\<rparr>,
          \<lparr>led_x = 200, led_y = 300, led_confidence = 23/25, led_method = ''Combinado''\<rparr>,
          \<lparr>led_x = 300, led_y = 300, led_confidence = 22/25, led_method = ''Combinado''\<rparr>]"
        "[Some 0, Some 1, Some 2]"
        "\<lparr> last_positions = Some [(100, 300, 9/10), (200, 300, 23/25), (300, 300, 22/25)],
           led_trajectory = [0 \<mapsto> [(100, 300)], 1 \<mapsto> [(200, 300)], 2 \<mapsto> [(300, 300)]],
           frame_count = 1 \<rparr>"
        "\<lambda>x y. ()" "\<lambda>k x y. ((x, y), k)" default_config
        "\<lparr>trackers = Map.empty, strict_frame_count = 0, last_valid_detection = None\<rparr>"
        "[(100, 300, 9/10), (200, 300, 23/25), (300, 300, 22/25)]" True
        "[\<lparr>sx = 100, sy = 300, sconfidence = 9/10, led_id = 0\<rparr>,
          \<lparr>sx = 200, sy = 300, sconfidence = 23/25, led_id = 1\<rparr>,
          \<lparr>sx = 300, sy = 300, sconfidence = 22/25, led_id = 2\<rparr>]" "Fin 0" "Fin 1"
        "\<lparr>trackers = [0 \<mapsto> (), 1 \<mapsto> (), 2 \<mapsto> ()], strict_frame_count = 1,
          last_valid_detection = Some [\<lparr>sx = 100, sy = 300, sconfidence = 9/10, led_id = 0\<rparr>,
                 \<lparr>sx = 200, sy = 300, sconfidence = 23/25, led_id = 1\<rparr>,
                 \<lparr>sx = 300, sy = 300, sconfidence = 22/25, led_id = 2\<rparr>]\<rparr>"]
    detect_first_frame strict_line
  by simp

subsection \<open>Perpendicular offset of the middle point\<close>

lemma geometry_offset:
  assumes "0 \<le> D"
  shows "calculate_geometry [(0, 0, c1), (100, D, c2), (200, 0, c3)] =
     Inr (Fin D, Fin 1, sqrt (10000 + D\<^sup>2), sqrt (10000 + D\<^sup>2))"
proof -
  have s: "sqrt 40000 = 200" by (rule sqrt_eq_num; simp)
  have pos: "10000 + D\<^sup>2 > 0" by (smt (verit) zero_le_power2)
  have ge: "\<not> sqrt (10000 + D\<^sup>2) < 1"
    using pos by (simp add: not_less le_sqrt_iff)
  have ne: "sqrt (10000 + D\<^sup>2) \<noteq> 0" using pos by simp
  show ?thesis using assms ge ne
    by (simp add: calculate_geometry_def sort_by_x_def det_simps vec_simps Let_def s add.commute)
qed

text \<open>
  C2. For \<open>p1 = (0,0)\<close>, \<open>p3 = (200,0)\<close> and \<open>p2 = (100,D)\<close> the computed collinearity error is
  \<open>D\<close>, for \<open>D = 0, 3, 10\<close> (the spacing ratio is 1 and both distances are
  \<open>sqrt (100\<^sup>2 + D\<^sup>2)\<close>); with the default tolerances the triplet passes validation for
  \<open>D = 0\<close> and \<open>D = 3\<close> and is rejected for \<open>D = 10\<close>. Confidences are arbitrary.
\<close>

theorem perpendicular_offset:
  "calculate_geometry [(0, 0, c1), (100, 0, c2), (200, 0, c3)] = Inr (Fin 0, Fin 1, 100, 100) \<and>
   calculate_geometry [(0, 0, c1), (100, 3, c2), (200, 0, c3)] =
     Inr (Fin 3, Fin 1, sqrt 10009, sqrt 10009) \<and>
   calculate_geometry [(0, 0, c1), (100, 10, c2), (200, 0, c3)] =
     Inr (Fin 10, Fin 1, sqrt 10100, sqrt 10100) \<and>
   validate_triplet default_config [(0, 0, c1), (100, 0, c2), (200, 0, c3)] = Inr True \<and>
   validate_triplet default_config [(0, 0, c1), (100, 3, c2), (200, 0, c3)] = Inr True \<and>
   validate_triplet default_config [(0, 0, c1), (100, 10, c2), (200, 0, c3)] = Inr False"
proof -
  have s: "sqrt 10000 = 100" by (rule sqrt_eq_num; simp)
  have g0: "calculate_geometry [(0, 0, c1), (100, 0, c2), (200, 0, c3)] =
     Inr (Fin 0, Fin 1, 100, 100)"
    using geometry_offset[of 0 c1 c2 c3] by (simp add: s)
  have g3: "calculate_geometry [(0, 0, c1), (100, 3, c2), (200, 0, c3)] =
     Inr (Fin 3, Fin 1, sqrt 10009, sqrt 10009)"
    using geometry_offset[of 3 c1 c2 c3] by simp
  have g10: "calculate_geometry [(0, 0, c1), (100, 10, c2), (200, 0, c3)] =
     Inr (Fin 10, Fin 1, sqrt 10100, sqrt 10100)"
    using geometry_offset[of 10 c1 c2 c3] by simp
  have v0: "validate_triplet default_config [(0, 0, c1), (100, 0, c2), (200, 0, c3)] = Inr True"
    by (simp add: validate_triplet_def g0 default_config_def)
  have v3: "validate_triplet default_config [(0, 0, c1), (100, 3, c2), (200, 0, c3)] = Inr True"
    by (simp add: validate_triplet_def g3 default_config_def sqrt_less_iff less_sqrt_iff)
  have v10: "validate_triplet default_config [(0, 0, c1), (100, 10, c2), (200, 0, c3)] = Inr False"
    by (simp add: validate_triplet_def g10 default_config_def)
  from g0 g3 g10 v0 v3 v10 show ?thesis by blast
qed

subsection \<open>The selection loop of the strict detector\<close>

lemma calculate_geometry_ok:
  "length t = 3 \<Longrightarrow> \<exists>g. calculate_geometry t = Inr g"
  by (simp add: calculate_geometry_def Let_def length_sort_by_x)

lemma validate_triplet_ok:
  "length t = 3 \<Longrightarrow> \<exists>b. validate_triplet cfg t = Inr b"
  using calculate_geometry_ok[of t]
  by (auto simp: validate_triplet_def split: prod.splits)

lemma valid_score_finite:
  assumes "validate_triplet cfg t = Inr True"
  shows "\<exists>c. triplet_score t = Fin c"
proof -
  from assms obtain ce sr d12 d23 where g: "calculate_geometry t = Inr (ce, sr, d12, d23)"
    by (auto simp: validate_triplet_def split: sum.splits)
  from assms g have "\<not> fless (Fin (max_collinearity_error cfg)) ce"
    and "\<not> fless (Fin (1 + spacing_tolerance cfg)) sr"
    by (auto simp: validate_triplet_def split: if_splits)
  then obtain a b where "ce = Fin a" "sr = Fin b"
    by (cases ce; cases sr) auto
  with g show ?thesis by (simp add: triplet_score_def)
qed

lemma fless_irrefl [simp]: "\<not> fless a a"
  by (cases a) auto

lemma fless_trans: "fless a b \<Longrightarrow> fless b c \<Longrightarrow> fless a c"
  by (cases a; cases b; cases c) auto

lemma not_fless_trans: "\<not> fless b a \<Longrightarrow> \<not> fless c b \<Longrightarrow> \<not> fless c a"
  by (cases a; cases b; cases c) auto

lemma best_loop_step_valid:
  assumes "validate_triplet cfg t = Inr True"
  shows "best_loop cfg (t # ts) (bt, bs) =
           (if fless (triplet_score t) bs then best_loop cfg ts (Some t, triplet_score t)
            else best_loop cfg ts (bt, bs))"
proof -
  from assms obtain g where g: "calculate_geometry t = Inr g"
    by (auto simp: validate_triplet_def split: sum.splits)
  obtain ce sr d12 d23 where "g = (ce, sr, d12, d23)" by (cases g) auto
  with g assms show ?thesis by (simp add: triplet_score_def Let_def)
qed

lemma best_loop_step_invalid:
  "validate_triplet cfg t = Inr False \<Longrightarrow> best_loop cfg (t # ts) st = best_loop cfg ts st"
  by (cases st) simp

text \<open>Invariant of the selection loop.\<close>

lemma best_loop_spec:
  assumes "\<forall>t \<in> set ts. length t = 3"
    and "case bt of None \<Rightarrow> bs = PInf | Some t0 \<Rightarrow> bs = triplet_score t0 \<and> validate_triplet cfg t0 = Inr True"
  shows "\<exists>bt' bs'. best_loop cfg ts (bt, bs) = Inr (bt', bs') \<and>
           (case bt' of
              None \<Rightarrow> bt = None \<and> (\<forall>t \<in> set ts. validate_triplet cfg t \<noteq> Inr True)
            | Some t \<Rightarrow> (t \<in> set ts \<or> bt = Some t) \<and> validate_triplet cfg t = Inr True \<and>
                bs' = triplet_score t \<and> \<not> fless bs bs' \<and>
                (\<forall>t' \<in> set ts. validate_triplet cfg t' = Inr True \<longrightarrow>
                    \<not> fless (triplet_score t') bs'))"
  using assms
proof (induction ts arbitrary: bt bs)
  case Nil
  then show ?case by (cases bt) (auto split: option.splits)
next
  case (Cons a ts)
  from Cons.prems(1) have la: "length a = 3" and lts: "\<forall>t \<in> set ts. length t = 3" by auto
  from validate_triplet_ok[OF la] obtain b where vb: "validate_triplet cfg a = Inr b" by blast
  show ?case
  proof (cases b)
    case False
    with vb have step: "best_loop cfg (a # ts) (bt, bs) = best_loop cfg ts (bt, bs)"
      by (simp add: best_loop_step_invalid del: best_loop.simps)
    from Cons.IH[OF lts Cons.prems(2)] obtain bt' bs' where
      r: "best_loop cfg ts (bt, bs) = Inr (bt', bs')" and
      p: "(case bt' of
              None \<Rightarrow> bt = None \<and> (\<forall>t \<in> set ts. validate_triplet cfg t \<noteq> Inr True)
            | Some t \<Rightarrow> (t \<in> set ts \<or> bt = Some t) \<and> validate_triplet cfg t = Inr True \<and>
                bs' = triplet_score t \<and> \<not> fless bs bs' \<and>
                (\<forall>t' \<in> set ts. validate_triplet cfg t' = Inr True \<longrightarrow>
                    \<not> fless (triplet_score t') bs'))" by blast
    show ?thesis
      using step r p vb False by (cases bt') auto
  next
    case True
    with vb have va: "validate_triplet cfg a = Inr True" by simp
    from valid_score_finite[OF va] obtain c where sc: "triplet_score a = Fin c" by blast
    show ?thesis
    proof (cases "fless (triplet_score a) bs")
      case less: True
      then have step: "best_loop cfg (a # ts) (bt, bs) = best_loop cfg ts (Some a, triplet_score a)"
        by (simp add: best_loop_step_valid[OF va] del: best_loop.simps)
      have inv: "case Some a of None \<Rightarrow> triplet_score a = PInf
                 | Some t0 \<Rightarrow> triplet_score a = triplet_score t0 \<and> validate_triplet cfg t0 = Inr True"
        using va by simp
      from Cons.IH[OF lts inv] obtain bt' bs' where
        r: "best_loop cfg ts (Some a, triplet_score a) = Inr (bt', bs')" and
        p: "(case bt' of
              None \<Rightarrow> Some a = None \<and> (\<forall>t \<in> set ts. validate_triplet cfg t \<noteq> Inr True)
            | Some t \<Rightarrow> (t \<in> set ts \<or> Some a = Some t) \<and> validate_triplet cfg t = Inr True \<and>
                bs' = triplet_score t \<and> \<not> fless (triplet_score a) bs' \<and>
                (\<forall>t' \<in> set ts. validate_triplet cfg t' = Inr True \<longrightarrow>
                    \<not> fless (triplet_score t') bs'))" by blast
      from p obtain t where bt': "bt' = Some t" by (cases bt') auto
      from p bt' have q: "(t \<in> set ts \<or> a = t)" "validate_triplet cfg t = Inr True"
        "bs' = triplet_score t" "\<not> fless (triplet_score a) bs'"
        "\<forall>t' \<in> set ts. validate_triplet cfg t' = Inr True \<longrightarrow> \<not> fless (triplet_score t') bs'"
        by auto
      have "\<not> fless bs bs'"
      proof
        assume "fless bs bs'"
        with less have "fless (triplet_score a) bs'" by (rule fless_trans)
        with q(4) show False by simp
      qed
      with step r bt' q show ?thesis by auto
    next
      case nless: False
      then have step: "best_loop cfg (a # ts) (bt, bs) = best_loop cfg ts (bt, bs)"
        by (simp add: best_loop_step_valid[OF va] del: best_loop.simps)
      from nless sc obtain t0 where bt: "bt = Some t0"
        using Cons.prems(2) by (cases bt) auto
      from Cons.IH[OF lts Cons.prems(2)] obtain bt' bs' where
        r: "best_loop cfg ts (bt, bs) = Inr (bt', bs')" and
        p: "(case bt' of
              None \<Rightarrow> bt = None \<and> (\<forall>t \<in> set ts. validate_triplet cfg t \<noteq> Inr True)
            | Some t \<Rightarrow> (t \<in> set ts \<or> bt = Some t) \<and> validate_triplet cfg t = Inr True \<and>
                bs' = triplet_score t \<and> \<not> fless bs bs' \<and>
                (\<forall>t' \<in> set ts. validate_triplet cfg t' = Inr True \<longrightarrow>
                    \<not> fless (triplet_score t') bs'))" by blast
      from p bt obtain t where bt': "bt' = Some t" by (cases bt') auto
      from p bt' have q: "(t \<in> set ts \<or> bt = Some t)" "validate_triplet cfg t = Inr True"
        "bs' = triplet_score t" "\<not> fless bs bs'"
        "\<forall>t' \<in> set ts. validate_triplet cfg t' = Inr True \<longrightarrow> \<not> fless (triplet_score t') bs'"
        by auto
      have "\<not> fless (triplet_score a) bs'"
        using q(4) nless not_fless_trans by blast
      with step r bt' q show ?thesis by auto
    qed
  qed
qed

lemma combinations_short: "length xs < k \<Longrightarrow> combinations k xs = []"
  by (induction k xs rule: combinations.induct) auto

lemma find_best_triplet_spec:
  "\<exists>r. find_best_triplet cfg blobs = Inr r \<and>
     (case r of
        None \<Rightarrow> (\<forall>t \<in> set (combinations 3 blobs). validate_triplet cfg t \<noteq> Inr True)
      | Some t \<Rightarrow> t \<in> set (combinations 3 blobs) \<and> validate_triplet cfg t = Inr True \<and>
          (\<forall>t' \<in> set (combinations 3 blobs). validate_triplet cfg t' = Inr True \<longrightarrow>
              \<not> fless (triplet_score t') (triplet_score t)))"
proof (cases "length blobs < 3")
  case True
  have "combinations 3 blobs = []"
    using True by (rule combinations_short)
  with True show ?thesis by (simp add: find_best_triplet_def)
next
  case False
  have len: "\<forall>t \<in> set (combinations 3 blobs). length t = 3"
    using combinations_length by blast
  have inv: "case None of None \<Rightarrow> PInf = PInf
             | Some t0 \<Rightarrow> PInf = triplet_score t0 \<and> validate_triplet cfg t0 = Inr True"
    by simp
  from best_loop_spec[OF len inv] obtain bt' bs' where
    r: "best_loop cfg (combinations 3 blobs) (None, PInf) = Inr (bt', bs')" and
    p: "(case bt' of
              None \<Rightarrow> None = (None :: det list option) \<and>
                 (\<forall>t \<in> set (combinations 3 blobs). validate_triplet cfg t \<noteq> Inr True)
            | Some t \<Rightarrow> (t \<in> set (combinations 3 blobs) \<or> None = Some t) \<and>
                validate_triplet cfg t = Inr True \<and>
                bs' = triplet_score t \<and> \<not> fless PInf bs' \<and>
                (\<forall>t' \<in> set (combinations 3 blobs). validate_triplet cfg t' = Inr True \<longrightarrow>
                    \<not> fless (triplet_score t') bs'))" by blast
  from False r have "find_best_triplet cfg blobs = Inr bt'"
    by (simp add: find_best_triplet_def)
  with p show ?thesis by (cases bt') auto
qed

subsection \<open>The code's geometry is the specified one\<close>

lemma projection_distance:
  fixes a b u v :: real
  assumes "u\<^sup>2 + v\<^sup>2 \<noteq> 0"
  shows "sqrt ((a - (a * u + b * v) / (u\<^sup>2 + v\<^sup>2) * u)\<^sup>2 +
               (b - (a * u + b * v) / (u\<^sup>2 + v\<^sup>2) * v)\<^sup>2) =
         \<bar>u * b - v * a\<bar> / sqrt (u\<^sup>2 + v\<^sup>2)"
proof -
  let ?L = "u\<^sup>2 + v\<^sup>2"
  have x: "a - (a * u + b * v) / ?L * u = v * (a * v - b * u) / ?L"
    using assms by (simp add: field_simps power2_eq_square)
  have y: "b - (a * u + b * v) / ?L * v = u * (b * u - a * v) / ?L"
    using assms by (simp add: field_simps power2_eq_square)
  have "(v * (a * v - b * u) / ?L)\<^sup>2 + (u * (b * u - a * v) / ?L)\<^sup>2 =
        (u * b - v * a)\<^sup>2 * ?L / ?L\<^sup>2"
    by (simp add: power_divide power_mult_distrib add_divide_distrib[symmetric])
       (simp add: power2_eq_square algebra_simps)
  also have "\<dots> = (u * b - v * a)\<^sup>2 / ?L"
    using assms by (simp add: power2_eq_square)
  finally have "sqrt ((a - (a * u + b * v) / ?L * u)\<^sup>2 + (b - (a * u + b * v) / ?L * v)\<^sup>2) =
                sqrt ((u * b - v * a)\<^sup>2 / ?L)"
    by (simp only: x y)
  then show ?thesis by (simp add: real_sqrt_divide)
qed

lemma spec_line_distance_least:
  assumes "0 < spec_dist p1 p3"
  shows "spec_line_distance p1 p3 p2 \<le>
           spec_dist p2 (fst p1 + s * (fst p3 - fst p1), snd p1 + s * (snd p3 - snd p1))"
proof -
  define a b u v where "a = fst p2 - fst p1" and "b = snd p2 - snd p1"
    and "u = fst p3 - fst p1" and "v = snd p3 - snd p1"
  from assms have L: "0 < u\<^sup>2 + v\<^sup>2"
    by (simp add: spec_dist_def u_def v_def)
  have "(u\<^sup>2 + v\<^sup>2) * ((s * u - a)\<^sup>2 + (s * v - b)\<^sup>2) =
        (u * b - v * a)\<^sup>2 + (u * (s * u - a) + v * (s * v - b))\<^sup>2"
    by (simp add: power2_eq_square algebra_simps)
  then have "(u * b - v * a)\<^sup>2 \<le> (u\<^sup>2 + v\<^sup>2) * ((s * u - a)\<^sup>2 + (s * v - b)\<^sup>2)"
    by simp
  then have "(u * b - v * a)\<^sup>2 / (u\<^sup>2 + v\<^sup>2) \<le> (s * u - a)\<^sup>2 + (s * v - b)\<^sup>2"
    using L by (simp add: pos_divide_le_eq mult.commute)
  then have "(\<bar>u * b - v * a\<bar> / sqrt (u\<^sup>2 + v\<^sup>2))\<^sup>2 \<le> (s * u - a)\<^sup>2 + (s * v - b)\<^sup>2"
    using L by (simp add: power_divide)
  then have "\<bar>u * b - v * a\<bar> / sqrt (u\<^sup>2 + v\<^sup>2) \<le> sqrt ((s * u - a)\<^sup>2 + (s * v - b)\<^sup>2)"
    by (rule real_le_rsqrt)
  moreover have e: "s * u - a = fst p1 + s * u - fst p2" "s * v - b = snd p1 + s * v - snd p2"
    by (simp_all add: a_def b_def)
  ultimately have "\<bar>u * b - v * a\<bar> / sqrt (u\<^sup>2 + v\<^sup>2) \<le>
      sqrt ((fst p1 + s * u - fst p2)\<^sup>2 + (snd p1 + s * v - snd p2)\<^sup>2)"
    by (simp only: e)
  then show ?thesis
    unfolding spec_line_distance_def spec_dist_def a_def b_def u_def v_def fst_conv snd_conv .
qed

lemma spec_line_distance_attained:
  assumes "0 < spec_dist p1 p3"
  shows "\<exists>s. spec_dist p2 (fst p1 + s * (fst p3 - fst p1), snd p1 + s * (snd p3 - snd p1)) =
             spec_line_distance p1 p3 p2"
proof -
  define a b u v where "a = fst p2 - fst p1" and "b = snd p2 - snd p1"
    and "u = fst p3 - fst p1" and "v = snd p3 - snd p1"
  define s where "s = (a * u + b * v) / (u\<^sup>2 + v\<^sup>2)"
  from assms have L: "u\<^sup>2 + v\<^sup>2 \<noteq> 0"
    by (auto simp: spec_dist_def u_def v_def)
  have e: "(fst p1 + s * u - fst p2)\<^sup>2 = (a - s * u)\<^sup>2"
    "(snd p1 + s * v - snd p2)\<^sup>2 = (b - s * v)\<^sup>2"
  proof -
    have "fst p1 + s * u - fst p2 = - (a - s * u)" "snd p1 + s * v - snd p2 = - (b - s * v)"
      by (simp_all add: a_def b_def)
    then show "(fst p1 + s * u - fst p2)\<^sup>2 = (a - s * u)\<^sup>2"
      "(snd p1 + s * v - snd p2)\<^sup>2 = (b - s * v)\<^sup>2"
      by (simp_all only: power2_minus)
  qed
  have "sqrt ((a - s * u)\<^sup>2 + (b - s * v)\<^sup>2) = \<bar>u * b - v * a\<bar> / sqrt (u\<^sup>2 + v\<^sup>2)"
    unfolding s_def by (rule projection_distance[OF L])
  then have "sqrt ((fst p1 + s * u - fst p2)\<^sup>2 + (snd p1 + s * v - snd p2)\<^sup>2) =
        \<bar>u * b - v * a\<bar> / sqrt (u\<^sup>2 + v\<^sup>2)"
    by (simp only: e)
  then have "spec_dist p2 (fst p1 + s * (fst p3 - fst p1), snd p1 + s * (snd p3 - snd p1)) =
             spec_line_distance p1 p3 p2"
    unfolding spec_line_distance_def spec_dist_def a_def b_def u_def v_def fst_conv snd_conv .
  then show ?thesis ..
qed

lemma vnorm_vsub: "vnorm (vsub (x2, y2) (x1, y1)) = spec_dist (x1, y1) (x2, y2)"
  by (simp add: vnorm_def vsub_def spec_dist_def)

lemma sort_by_x_fst: "sort_by_x t = sort_key fst t"
proof -
  have "det_x = fst" by (rule ext) (simp add: det_x_def)
  then show ?thesis by (simp add: sort_by_x_def)
qed

lemma spec_point_sorted:
  "spec_point t k = (det_x (sort_by_x t ! k), det_y (sort_by_x t ! k))"
  by (simp add: spec_point_def sort_by_x_fst det_x_def det_y_def Let_def)

lemma code_collinearity:
  assumes "1 \<le> spec_dist (x1, y1) (x3, y3)"
  shows "vnorm (vsub (x2, y2)
            (vadd (x1, y1)
               (smul (dot (vsub (x2, y2) (x1, y1)) (vsub (x3, y3) (x1, y1)) /
                      (vnorm (vsub (x3, y3) (x1, y1)))\<^sup>2)
                     (vsub (x3, y3) (x1, y1))))) =
         spec_line_distance (x1, y1) (x3, y3) (x2, y2)"
proof -
  let ?a = "x2 - x1" and ?b = "y2 - y1" and ?u = "x3 - x1" and ?v = "y3 - y1"
  from assms have "0 < sqrt (?u\<^sup>2 + ?v\<^sup>2)" by (simp add: spec_dist_def)
  then have ne: "?u\<^sup>2 + ?v\<^sup>2 \<noteq> 0" by auto
  have sq: "(sqrt (?u\<^sup>2 + ?v\<^sup>2))\<^sup>2 = ?u\<^sup>2 + ?v\<^sup>2" by simp
  have x: "x2 - (x1 + (?a * ?u + ?b * ?v) / (?u\<^sup>2 + ?v\<^sup>2) * ?u) =
           ?a - (?a * ?u + ?b * ?v) / (?u\<^sup>2 + ?v\<^sup>2) * ?u" by simp
  have y: "y2 - (y1 + (?a * ?u + ?b * ?v) / (?u\<^sup>2 + ?v\<^sup>2) * ?v) =
           ?b - (?a * ?u + ?b * ?v) / (?u\<^sup>2 + ?v\<^sup>2) * ?v" by simp
  show ?thesis
    unfolding vnorm_def vsub_def vadd_def smul_def dot_def fst_conv snd_conv sq x y
      spec_line_distance_def spec_dist_def
    by (rule projection_distance[OF ne])
qed

lemma code_collinearity_dist:
  assumes "1 \<le> spec_dist (x1, y1) (x3, y3)"
  shows "vnorm (vsub (x2, y2)
            (vadd (x1, y1)
               (smul (dot (vsub (x2, y2) (x1, y1)) (vsub (x3, y3) (x1, y1)) /
                      (spec_dist (x1, y1) (x3, y3))\<^sup>2)
                     (vsub (x3, y3) (x1, y1))))) =
         spec_line_distance (x1, y1) (x3, y3) (x2, y2)"
  using code_collinearity[OF assms, of x2 y2] by (simp only: vnorm_vsub)

lemma calculate_geometry_spec:
  assumes "length t = 3"
  shows "calculate_geometry t =
           (if spec_near_zero t then Inr (PInf, PInf, 0, 0)
            else Inr (Fin (spec_collinearity_error t), Fin (spec_spacing_ratio t),
                      spec_d12 t, spec_d23 t))"
proof -
  obtain x1 y1 x2 y2 x3 y3 where
    p: "spec_point t 0 = (x1, y1)" "spec_point t (Suc 0) = (x2, y2)" "spec_point t 2 = (x3, y3)"
    by (metis surj_pair)
  from p have q: "det_x (sort_by_x t ! 0) = x1" "det_y (sort_by_x t ! 0) = y1"
    "det_x (sort_by_x t ! Suc 0) = x2" "det_y (sort_by_x t ! Suc 0) = y2"
    "det_x (sort_by_x t ! 2) = x3" "det_y (sort_by_x t ! 2) = y3"
    by (simp_all add: spec_point_sorted)
  show ?thesis
    using assms
    by (auto simp: calculate_geometry_def Let_def length_sort_by_x q vnorm_vsub
        spec_near_zero_def spec_d12_def spec_d23_def p spec_spacing_ratio_def
        spec_collinearity_error_def code_collinearity_dist not_less)
qed

text \<open>The specification's degenerate triplets are the ones the geometry computation answers with
  the infinite sentinel.\<close>

lemma spec_near_zero_degenerate: "spec_near_zero t = degenerate t"
  by (simp add: spec_near_zero_def spec_d12_def spec_d23_def spec_point_sorted degenerate_def
      Let_def vnorm_vsub)

lemma validate_triplet_spec:
  assumes "length t = 3"
  shows "validate_triplet cfg t = Inr (spec_passes cfg t)"
  by (auto simp: validate_triplet_def calculate_geometry_spec[OF assms] spec_passes_def)

lemma triplet_score_spec:
  assumes "length t = 3" "spec_passes cfg t"
  shows "triplet_score t = Fin (spec_score t)"
  using assms(2)
  by (simp add: triplet_score_def calculate_geometry_spec[OF assms(1)] spec_passes_def
      spec_score_def)

text \<open>
  C3. \<open>_find_best_triplet\<close> never raises. When it returns a triplet, that triplet is one of the
  3-point combinations of the blobs, passes every geometric constraint of the specification
  (minimum and maximum separation, spacing-ratio tolerance, collinearity tolerance, not
  degenerate), and no combination that passes has a smaller score
  \<open>collinearity_error + 10 * |spacing_ratio - 1|\<close>. When it returns no triplet, no combination
  passes, and \<open>detect\<close> answers \<open>success = False\<close> with the empty list. It returns no triplet
  whenever fewer than three blobs exist or no combination passes.
\<close>

theorem best_triplet_minimises_score:
  "\<exists>r. find_best_triplet cfg blobs = Inr r \<and>
     (case r of
        Some t \<Rightarrow>
          t \<in> set (combinations 3 blobs) \<and> spec_passes cfg t \<and>
          (\<forall>t' \<in> set (combinations 3 blobs). spec_passes cfg t' \<longrightarrow> spec_score t \<le> spec_score t')
      | None \<Rightarrow>
          (\<forall>t' \<in> set (combinations 3 blobs). \<not> spec_passes cfg t') \<and>
          strict_detect kinit kupdate cfg st blobs =
            Inr ((False, [], PInf, PInf), st\<lparr>strict_frame_count := strict_frame_count st + 1\<rparr>)) \<and>
     (length blobs < 3 \<or> (\<forall>t' \<in> set (combinations 3 blobs). \<not> spec_passes cfg t') \<longrightarrow>
        r = None)"
proof -
  have v: "\<And>t. t \<in> set (combinations 3 blobs) \<Longrightarrow> validate_triplet cfg t = Inr (spec_passes cfg t)"
    by (rule validate_triplet_spec) (rule combinations_length)
  have sc: "\<And>t. t \<in> set (combinations 3 blobs) \<Longrightarrow> spec_passes cfg t \<Longrightarrow>
             triplet_score t = Fin (spec_score t)"
    by (rule triplet_score_spec) (rule combinations_length)
  from find_best_triplet_spec[of cfg blobs] obtain r where
    r: "find_best_triplet cfg blobs = Inr r" and
    p: "(case r of
        None \<Rightarrow> (\<forall>t \<in> set (combinations 3 blobs). validate_triplet cfg t \<noteq> Inr True)
      | Some t \<Rightarrow> t \<in> set (combinations 3 blobs) \<and> validate_triplet cfg t = Inr True \<and>
          (\<forall>t' \<in> set (combinations 3 blobs). validate_triplet cfg t' = Inr True \<longrightarrow>
              \<not> fless (triplet_score t') (triplet_score t)))" by blast
  show ?thesis
  proof (cases r)
    case None
    with p have no: "\<forall>t' \<in> set (combinations 3 blobs). \<not> spec_passes cfg t'"
      using v by auto
    from None r have "strict_detect kinit kupdate cfg st blobs =
            Inr ((False, [], PInf, PInf), st\<lparr>strict_frame_count := strict_frame_count st + 1\<rparr>)"
      by (simp add: strict_detect_def)
    with r None no show ?thesis by simp
  next
    case (Some t)
    with p have m: "t \<in> set (combinations 3 blobs)" and vt: "validate_triplet cfg t = Inr True"
      and least: "\<forall>t' \<in> set (combinations 3 blobs). validate_triplet cfg t' = Inr True \<longrightarrow>
              \<not> fless (triplet_score t') (triplet_score t)"
      by auto
    from v[OF m] vt have pt: "spec_passes cfg t" by simp
    have min: "\<forall>t' \<in> set (combinations 3 blobs). spec_passes cfg t' \<longrightarrow> spec_score t \<le> spec_score t'"
    proof (intro ballI impI)
      fix t' assume m': "t' \<in> set (combinations 3 blobs)" and pt': "spec_passes cfg t'"
      from v[OF m'] pt' have "validate_triplet cfg t' = Inr True" by simp
      with least m' have "\<not> fless (triplet_score t') (triplet_score t)" by blast
      then show "spec_score t \<le> spec_score t'"
        by (simp add: sc[OF m pt] sc[OF m' pt'])
    qed
    have ne: "\<not> length blobs < 3"
      using m by (auto simp: combinations_short)
    from r Some m pt min ne show ?thesis by auto
  qed
qed

lemmas vec_ops = vsub_def vadd_def smul_def dot_def

lemmas spec_geometry = spec_point_def spec_d12_def spec_d23_def spec_spacing_ratio_def
  spec_collinearity_error_def spec_line_distance_def spec_near_zero_def spec_dist_def

lemma spec_offset:
  assumes "t = [(0, 0, c1), (100, D, c2), (200, 0, c3)] \<or> t = [(0, 0, c1), (200, 0, c3), (100, D, c2)]"
  shows "spec_collinearity_error t = \<bar>D\<bar>" and "spec_spacing_ratio t = 1"
    and "spec_d12 t = sqrt (10000 + D\<^sup>2)" and "spec_d23 t = sqrt (10000 + D\<^sup>2)"
    and "\<not> spec_near_zero t"
proof -
  have s: "sqrt 40000 = 200" by (rule sqrt_eq_num; simp)
  have pos: "10000 + D\<^sup>2 > 0" by (smt (verit) zero_le_power2)
  have ge: "\<not> sqrt (10000 + D\<^sup>2) < 1"
    using pos by (simp add: not_less le_sqrt_iff)
  have ne: "sqrt (10000 + D\<^sup>2) \<noteq> 0" using pos by simp
  have srt: "sort_key fst t = [(0, 0, c1), (100, D, c2), (200, 0, c3)]"
    using assms by auto
  show "spec_collinearity_error t = \<bar>D\<bar>"
    by (simp add: spec_geometry srt s abs_mult)
  show "spec_d12 t = sqrt (10000 + D\<^sup>2)" "spec_d23 t = sqrt (10000 + D\<^sup>2)"
    by (simp_all add: spec_geometry srt add.commute)
  then show "spec_spacing_ratio t = 1" using ne by (simp add: spec_spacing_ratio_def)
  show "\<not> spec_near_zero t"
    using ge by (simp add: spec_geometry srt s add.commute)
qed

lemma spec_offset_passes:
  assumes "t = [(0, 0, c1), (100, D, c2), (200, 0, c3)] \<or> t = [(0, 0, c1), (200, 0, c3), (100, D, c2)]"
    and "\<bar>D\<bar> \<le> 5"
  shows "spec_passes default_config t" and "spec_score t = \<bar>D\<bar>"
proof -
  have "\<bar>D\<bar>\<^sup>2 \<le> 5\<^sup>2"
    using assms(2) by (intro power_mono) simp_all
  then have "D\<^sup>2 \<le> 25" by simp
  then show "spec_passes default_config t"
    using assms(2)
    by (simp add: spec_passes_def spec_offset[OF assms(1)] default_config_def le_sqrt_iff sqrt_le_iff)
  show "spec_score t = \<bar>D\<bar>"
    by (simp add: spec_score_def spec_offset[OF assms(1)])
qed

lemma spec_close_pair_fails:
  "\<not> spec_passes default_config [(0, 0, c1), (100, -4, c2), (100, 3, c3)]"
  "\<not> spec_passes default_config [(100, -4, c2), (200, 0, c1), (100, 3, c3)]"
  by (simp_all add: spec_passes_def spec_d12_def spec_d23_def spec_point_def spec_dist_def
      default_config_def le_sqrt_iff)

lemma offset_triplets:
  "spec_passes default_config [(0, 0, 1/2), (100, -4, 1/2), (200, 0, 1/2)]"
  "spec_score [(0, 0, 1/2), (100, -4, 1/2), (200, 0, 1/2)] = 4"
  "spec_passes default_config [(0, 0, 1/2), (200, 0, 1/2), (100, 3, 1/2)]"
  "spec_score [(0, 0, 1/2), (200, 0, 1/2), (100, 3, 1/2)] = 3"
  using spec_offset_passes[of "[(0, 0, 1/2), (100, -4, 1/2), (200, 0, 1/2)]" "1/2" "-4" "1/2" "1/2"]
    spec_offset_passes[of "[(0, 0, 1/2), (200, 0, 1/2), (100, 3, 1/2)]" "1/2" 3 "1/2" "1/2"]
  by simp_all

lemma four_blobs_best:
  "find_best_triplet default_config [(0, 0, 1/2), (100, -4, 1/2), (200, 0, 1/2), (100, 3, 1/2)] =
     Inr (Some [(0, 0, 1/2), (200, 0, 1/2), (100, 3, 1/2)])"
proof -
  let ?T1 = "[(0, 0, 1/2), (100, -4, 1/2), (200, 0, 1/2) :: det]"
  let ?T2 = "[(0, 0, 1/2), (100, -4, 1/2), (100, 3, 1/2) :: det]"
  let ?T3 = "[(0, 0, 1/2), (200, 0, 1/2), (100, 3, 1/2) :: det]"
  let ?T4 = "[(100, -4, 1/2), (200, 0, 1/2), (100, 3, 1/2) :: det]"
  have v1: "validate_triplet default_config ?T1 = Inr True"
    by (simp add: validate_triplet_spec offset_triplets)
  have v2: "validate_triplet default_config ?T2 = Inr False"
    by (simp add: validate_triplet_spec spec_close_pair_fails)
  have v3: "validate_triplet default_config ?T3 = Inr True"
    by (simp add: validate_triplet_spec offset_triplets)
  have v4: "validate_triplet default_config ?T4 = Inr False"
    by (simp add: validate_triplet_spec spec_close_pair_fails)
  have s1: "triplet_score ?T1 = Fin 4"
    using triplet_score_spec[of ?T1 default_config] by (simp add: offset_triplets)
  have s3: "triplet_score ?T3 = Fin 3"
    using triplet_score_spec[of ?T3 default_config] by (simp add: offset_triplets)
  have "best_loop default_config [?T1, ?T2, ?T3, ?T4] (None, PInf) = Inr (Some ?T3, Fin 3)"
    by (simp add: best_loop_step_valid[OF v1] best_loop_step_valid[OF v3]
        best_loop_step_invalid[OF v2] best_loop_step_invalid[OF v4] s1 s3 del: best_loop.simps(2))
  then show ?thesis
    by (simp add: find_best_triplet_def numeral_3_eq_3 del: best_loop.simps)
qed

theorem best_triplet_minimises_score_witness:
  "find_best_triplet default_config [(0, 0, 1/2), (100, -4, 1/2), (200, 0, 1/2), (100, 3, 1/2)] =
     Inr (Some [(0, 0, 1/2), (200, 0, 1/2), (100, 3, 1/2)]) \<and>
   [(0, 0, 1/2), (200, 0, 1/2), (100, 3, 1/2)] \<in>
     set (combinations 3 [(0, 0, 1/2), (100, -4, 1/2), (200, 0, 1/2), (100, 3, 1/2) :: det]) \<and>
   [(0, 0, 1/2), (100, -4, 1/2), (200, 0, 1/2)] \<in>
     set (combinations 3 [(0, 0, 1/2), (100, -4, 1/2), (200, 0, 1/2), (100, 3, 1/2) :: det]) \<and>
   spec_passes default_config [(0, 0, 1/2), (200, 0, 1/2), (100, 3, 1/2)] \<and>
   spec_passes default_config [(0, 0, 1/2), (100, -4, 1/2), (200, 0, 1/2)] \<and>
   spec_score [(0, 0, 1/2), (200, 0, 1/2), (100, 3, 1/2)] = 3 \<and>
   spec_score [(0, 0, 1/2), (100, -4, 1/2), (200, 0, 1/2)] = 4 \<and>
   spec_score [(0, 0, 1/2), (200, 0, 1/2), (100, 3, 1/2)] \<le>
     spec_score [(0, 0, 1/2), (100, -4, 1/2), (200, 0, 1/2)] \<and>
   combinations 3 [(0, 0, 1/2), (100, -4, 1/2), (100, 3, 1/2 :: real)] =
     [[(0, 0, 1/2), (100, -4, 1/2), (100, 3, 1/2)]] \<and>
   \<not> spec_passes default_config [(0, 0, 1/2), (100, -4, 1/2), (100, 3, 1/2)] \<and>
   find_best_triplet default_config [(0, 0, 1/2), (100, -4, 1/2), (100, 3, 1/2)] = Inr None \<and>
   strict_detect (\<lambda>x y. ()) (\<lambda>k x y. ((x, y), k)) default_config
      \<lparr>trackers = Map.empty, strict_frame_count = 0, last_valid_detection = None\<rparr>
      [(0, 0, 1/2), (100, -4, 1/2), (100, 3, 1/2)] =
     Inr ((False, [], PInf, PInf),
          \<lparr>trackers = Map.empty, strict_frame_count = 1, last_valid_detection = None\<rparr>) \<and>
   length [(0, 0, 1/2), (105, 0, 1/2) :: det] < 3 \<and>
   find_best_triplet default_config [(0, 0, 1/2), (105, 0, 1/2)] = Inr None \<and>
   strict_detect (\<lambda>x y. ()) (\<lambda>k x y. ((x, y), k)) default_config
      \<lparr>trackers = Map.empty, strict_frame_count = 0, last_valid_detection = None\<rparr>
      [(0, 0, 1/2), (105, 0, 1/2)] =
     Inr ((False, [], PInf, PInf),
          \<lparr>trackers = Map.empty, strict_frame_count = 1, last_valid_detection = None\<rparr>)"
proof -
  let ?st = "\<lparr>trackers = Map.empty, strict_frame_count = 0, last_valid_detection = None\<rparr>
               :: unit strict_state"
  have c4: "combinations 3 [(0, 0, 1/2), (100, -4, 1/2), (200, 0, 1/2), (100, 3, 1/2 :: real)] =
      [[(0, 0, 1/2), (100, -4, 1/2), (200, 0, 1/2)], [(0, 0, 1/2), (100, -4, 1/2), (100, 3, 1/2)],
       [(0, 0, 1/2), (200, 0, 1/2), (100, 3, 1/2)], [(100, -4, 1/2), (200, 0, 1/2), (100, 3, 1/2)]]"
    by (simp add: numeral_3_eq_3)
  have c3: "combinations 3 [(0, 0, 1/2), (100, -4, 1/2), (100, 3, 1/2 :: real)] =
     [[(0, 0, 1/2), (100, -4, 1/2), (100, 3, 1/2)]]"
    by (simp add: numeral_3_eq_3)
  have p: "spec_passes default_config [(0, 0, 1/2), (200, 0, 1/2), (100, 3, 1/2)]"
    "spec_passes default_config [(0, 0, 1/2), (100, -4, 1/2), (200, 0, 1/2)]"
    "spec_score [(0, 0, 1/2), (200, 0, 1/2), (100, 3, 1/2)] = 3"
    "spec_score [(0, 0, 1/2), (100, -4, 1/2), (200, 0, 1/2)] = 4"
    by (simp_all add: offset_triplets)
  show ?thesis
    using best_triplet_minimises_score
      [of default_config "[(0, 0, 1/2), (100, -4, 1/2), (200, 0, 1/2), (100, 3, 1/2)]"
          "\<lambda>x y. ()" "\<lambda>k x y. ((x, y), k)" ?st]
      best_triplet_minimises_score
      [of default_config "[(0, 0, 1/2), (100, -4, 1/2), (100, 3, 1/2)]"
          "\<lambda>x y. ()" "\<lambda>k x y. ((x, y), k)" ?st]
      best_triplet_minimises_score
      [of default_config "[(0, 0, 1/2), (105, 0, 1/2)]"
          "\<lambda>x y. ()" "\<lambda>k x y. ((x, y), k)" ?st]
      four_blobs_best
    unfolding c4 c3
    by (auto simp: p spec_close_pair_fails)
qed


text \<open>
  C4. For a triplet whose x-sorted points are degenerate (\<open>d12\<close>, \<open>d23\<close> or the baseline
  \<open>p1\<close>-\<open>p3\<close> below one pixel) the geometry computation returns the sentinel
  \<open>(inf, inf, 0, 0)\<close> instead of raising, validation rejects the triplet whatever the
  tolerances are, and the triplet is never the one \<open>_find_best_triplet\<close> selects.
\<close>

theorem degenerate_triplet_rejected:
  "length t = 3 \<Longrightarrow> degenerate t \<Longrightarrow>
     calculate_geometry t = Inr (PInf, PInf, 0, 0) \<and>
     validate_triplet cfg t = Inr False \<and>
     find_best_triplet cfg blobs \<noteq> Inr (Some t)"
proof -
  assume len: "length t = 3" and deg: "degenerate t"
  have g: "calculate_geometry t = Inr (PInf, PInf, 0, 0)"
    using len deg
    by (auto simp: calculate_geometry_def degenerate_def Let_def length_sort_by_x)
  then have v: "validate_triplet cfg t = Inr False"
    by (simp add: validate_triplet_def)
  have "find_best_triplet cfg blobs \<noteq> Inr (Some t)"
  proof
    assume "find_best_triplet cfg blobs = Inr (Some t)"
    with find_best_triplet_spec[of cfg blobs] have "validate_triplet cfg t = Inr True"
      by auto
    with v show False by simp
  qed
  with g v show ?thesis by simp
qed

theorem degenerate_triplet_rejected_witness:
  "length [(0, 0, 1/2), (0, 1/2, 1/2), (100, 0, 1/2) :: det] = 3 \<and>
   degenerate [(0, 0, 1/2), (0, 1/2, 1/2), (100, 0, 1/2)] \<and>
   calculate_geometry [(0, 0, 1/2), (0, 1/2, 1/2), (100, 0, 1/2)] = Inr (PInf, PInf, 0, 0) \<and>
   validate_triplet default_config [(0, 0, 1/2), (0, 1/2, 1/2), (100, 0, 1/2)] = Inr False \<and>
   find_best_triplet default_config [(0, 0, 1/2), (0, 1/2, 1/2), (100, 0, 1/2)] = Inr None"
proof -
  have d: "degenerate [(0, 0, 1/2), (0, 1/2, 1/2), (100, 0, 1/2)]"
    by (simp add: degenerate_def sort_by_x_def det_simps vec_ops vnorm_def sqrt_less_iff power2_eq_square)
  have l: "length [(0, 0, 1/2), (0, 1/2, 1/2), (100, 0, 1/2) :: det] = 3" by simp
  from degenerate_triplet_rejected[OF l d, of default_config "[(0, 0, 1/2), (0, 1/2, 1/2), (100, 0, 1/2)]"]
  have r: "calculate_geometry [(0, 0, 1/2), (0, 1/2, 1/2), (100, 0, 1/2)] = Inr (PInf, PInf, 0, 0)"
    "validate_triplet default_config [(0, 0, 1/2), (0, 1/2, 1/2), (100, 0, 1/2)] = Inr False"
    by simp_all
  have "find_best_triplet default_config [(0, 0, 1/2), (0, 1/2, 1/2), (100, 0, 1/2)] = Inr None"
    by (simp add: find_best_triplet_def numeral_3_eq_3 r)
  with d l r show ?thesis by simp
qed

subsection \<open>Fusion of candidates\<close>

lemma sort_two_by_conf:
  "sort_by_conf_desc [(x1, y1, c1), (x2, y2, c2)] =
     (if c2 \<le> c1 then [(x1, y1, c1), (x2, y2, c2)] else [(x2, y2, c2), (x1, y1, c1)])"
  by (simp add: sort_by_conf_desc_def det_simps)

lemma clusters_of_two:
  "merge_clusters [(x1, y1, c1), (x2, y2, c2)] =
     (if euclid x1 y1 x2 y2 < 20 then [[(x1, y1, c1), (x2, y2, c2)]]
      else [[(x1, y1, c1)], [(x2, y2, c2)]])"
  by (simp add: merge_clusters_def build_cluster_def distance_threshold_def)

lemma fuse_one: "c \<noteq> 0 \<Longrightarrow> fuse [(x, y, c)] = (x, y, c)"
  by (simp add: fuse_def det_simps)

lemma fuse_two:
  "fuse [(x1, y1, c1), (x2, y2, c2)] =
     ((x1 * c1 + x2 * c2) / (c1 + c2), (y1 * c1 + y2 * c2) / (c1 + c2), (c1 + c2) / 2)"
  by (simp add: fuse_def det_simps add_divide_distrib)

lemma euclid_sym: "euclid x2 y2 x1 y1 = euclid x1 y1 x2 y2"
  by (simp add: euclid_def power2_commute)

lemma euclid_axis: "euclid a 0 b 0 = \<bar>a - b\<bar>"
  by (simp add: euclid_def)

text \<open>Two candidates that are the frame's only ones, with the order of the output.\<close>

lemma two_candidates_alone:
  "concat dl = [(x1, y1, c1), (x2, y2, c2)] \<Longrightarrow> 0 < c1 \<Longrightarrow> 0 < c2 \<Longrightarrow>
     (euclid x1 y1 x2 y2 < 20 \<longrightarrow>
        merge_detections dl =
          [((x1 * c1 + x2 * c2) / (c1 + c2), (y1 * c1 + y2 * c2) / (c1 + c2), (c1 + c2) / 2)]) \<and>
     (20 \<le> euclid x1 y1 x2 y2 \<longrightarrow>
        merge_detections dl =
          (if c2 \<le> c1 then [(x1, y1, c1), (x2, y2, c2)] else [(x2, y2, c2), (x1, y1, c1)]))"
proof -
  assume dl: "concat dl = [(x1, y1, c1), (x2, y2, c2)]" and c1: "0 < c1" and c2: "0 < c2"
  have m: "merge_detections dl =
             map fuse (merge_clusters (sort_by_conf_desc [(x1, y1, c1), (x2, y2, c2)]))"
    using dl by (simp add: merge_detections_def)
  show ?thesis
  proof (cases "c2 \<le> c1")
    case True
    then show ?thesis
      using c1 c2 by (simp add: m sort_two_by_conf clusters_of_two fuse_one fuse_two)
  next
    case False
    have "(x2 * c2 + x1 * c1) / (c2 + c1) = (x1 * c1 + x2 * c2) / (c1 + c2)"
      "(y2 * c2 + y1 * c1) / (c2 + c1) = (y1 * c1 + y2 * c2) / (c1 + c2)"
      "(c2 + c1) / 2 = (c1 + c2) / 2"
      by (simp_all add: add.commute)
    with False show ?thesis
      using c1 c2
      by (simp add: m sort_two_by_conf clusters_of_two fuse_one fuse_two
          euclid_sym[of x2 y2 x1 y1])
  qed
qed

lemma sorted_by_conf_desc:
  "sorted_wrt (\<lambda>a b. det_conf b \<le> det_conf a) (sort_by_conf_desc ds)"
proof -
  have "sorted (map (\<lambda>d. - det_conf d) (sort_key (\<lambda>d. - det_conf d) ds))"
    by (rule sorted_sort_key)
  then show ?thesis
    by (simp add: sort_by_conf_desc_def sorted_map)
qed

subsection \<open>The fusion loop is the greedy clustering\<close>

lemma absorb_step_near:
  "absorb_step i d (j, x) (c, U) =
     (if i < j \<and> j \<notin> U \<and> near d x then (c @ [x], insert j U) else (c, U))"
  by (cases d; cases x) (auto simp: near_def det_simps)

lemma absorb_fold:
  "fold (absorb_step i d) (List.enumerate k xs) (c, U) =
     (c @ map snd (filter (\<lambda>(j, x). i < j \<and> j \<notin> U \<and> near d x) (List.enumerate k xs)),
      U \<union> fst ` set (filter (\<lambda>(j, x). i < j \<and> j \<notin> U \<and> near d x) (List.enumerate k xs)))"
proof (induction xs arbitrary: k c U)
  case Nil
  then show ?case by simp
next
  case (Cons x xs)
  show ?case
  proof (cases "i < k \<and> k \<notin> U \<and> near d x")
    case False
    then show ?thesis
      using Cons.IH[of "Suc k" c U] by (auto simp: absorb_step_near simp del: absorb_step.simps)
  next
    case True
    let ?P = "\<lambda>(j, x). i < j \<and> j \<notin> U \<and> near d x"
    let ?F = "filter ?P (List.enumerate (Suc k) xs)"
    have same: "filter (\<lambda>(j, x). i < j \<and> j \<notin> insert k U \<and> near d x) (List.enumerate (Suc k) xs) = ?F"
      by (rule filter_cong) (auto simp: in_set_enumerate_eq)
    have "fold (absorb_step i d) (List.enumerate k (x # xs)) (c, U) =
          fold (absorb_step i d) (List.enumerate (Suc k) xs) (c @ [x], insert k U)"
      using True by (simp add: absorb_step_near del: absorb_step.simps)
    also have "\<dots> = ((c @ [x]) @ map snd ?F, insert k U \<union> fst ` set ?F)"
      unfolding Cons.IH[of "Suc k" "c @ [x]" "insert k U"] same ..
    also have "\<dots> = (c @ map snd ((k, x) # ?F), U \<union> fst ` set ((k, x) # ?F))"
      by simp
    also have "(k, x) # ?F = filter ?P (List.enumerate k (x # xs))"
      using True by simp
    finally show ?thesis .
  qed
qed

lemma enumerate_split:
  assumes "i < length S"
  shows "List.enumerate 0 S =
           List.enumerate 0 (take (Suc i) S) @ List.enumerate (Suc i) (drop (Suc i) S)"
proof -
  have "List.enumerate 0 (take (Suc i) S @ drop (Suc i) S) =
        List.enumerate 0 (take (Suc i) S) @
        List.enumerate (0 + length (take (Suc i) S)) (drop (Suc i) S)"
    by (rule enumerate_append_eq)
  moreover have "length (take (Suc i) S) = Suc i" using assms by simp
  ultimately show ?thesis by simp
qed

lemma build_cluster_suffix:
  assumes "i < length S"
  shows "build_cluster S i d U =
           (d # filter (near d) (unused U (List.enumerate (Suc i) (drop (Suc i) S))),
            U \<union> fst ` set (filter (\<lambda>(j, x). j \<notin> U \<and> near d x)
                                (List.enumerate (Suc i) (drop (Suc i) S))))"
proof -
  let ?P = "\<lambda>(j, x). i < j \<and> j \<notin> U \<and> near d x"
  let ?es = "List.enumerate (Suc i) (drop (Suc i) S)"
  have pre: "filter ?P (List.enumerate 0 (take (Suc i) S)) = []"
    by (auto simp: filter_empty_conv in_set_enumerate_eq)
  have suf: "filter ?P ?es = filter (\<lambda>(j, x). j \<notin> U \<and> near d x) ?es"
    by (rule filter_cong) (auto simp: in_set_enumerate_eq)
  have f: "filter ?P (List.enumerate 0 S) = filter (\<lambda>(j, x). j \<notin> U \<and> near d x) ?es"
    unfolding enumerate_split[OF assms] filter_append pre suf by simp
  have m: "map snd (filter (\<lambda>(j, x). j \<notin> U \<and> near d x) ?es) = filter (near d) (unused U ?es)"
    unfolding unused_def filter_map filter_filter
    by (rule arg_cong[where f = "map snd"], rule filter_cong) auto
  show ?thesis
    unfolding build_cluster_def absorb_fold f m by simp
qed

lemma unused_after_cluster:
  "unused (insert i (U \<union> fst ` set (filter (\<lambda>(j, x). j \<notin> U \<and> near d x)
                                          (List.enumerate (Suc i) xs))))
          (List.enumerate (Suc i) xs) =
   filter (\<lambda>x. \<not> near d x) (unused U (List.enumerate (Suc i) xs))"
proof -
  let ?es = "List.enumerate (Suc i) xs"
  let ?A = "fst ` set (filter (\<lambda>(j, x). j \<notin> U \<and> near d x) ?es)"
  have "filter (\<lambda>(j, x). j \<notin> insert i (U \<union> ?A)) ?es =
        filter (\<lambda>(j, x). j \<notin> U \<and> \<not> near d x) ?es"
  proof (rule filter_cong[OF refl])
    fix e assume e: "e \<in> set ?es"
    obtain j x where jx: "e = (j, x)" by (cases e) auto
    from e jx have j: "Suc i \<le> j" and x: "xs ! (j - Suc i) = x"
      by (auto simp: in_set_enumerate_eq)
    have "j \<in> ?A \<longleftrightarrow> j \<notin> U \<and> near d x"
    proof
      assume "j \<in> ?A"
      then obtain x' where "(j, x') \<in> set ?es" "j \<notin> U" "near d x'" by auto
      moreover from this have "x' = x" using x by (auto simp: in_set_enumerate_eq)
      ultimately show "j \<notin> U \<and> near d x" by simp
    next
      assume "j \<notin> U \<and> near d x"
      with e jx show "j \<in> ?A" by force
    qed
    with j show "(case e of (j, x) \<Rightarrow> j \<notin> insert i (U \<union> ?A)) =
                 (case e of (j, x) \<Rightarrow> j \<notin> U \<and> \<not> near d x)"
      unfolding jx by auto
  qed
  then show ?thesis
    unfolding unused_def filter_map filter_filter
    by (simp add: comp_def case_prod_unfold conj_commute)
qed

lemma merge_fold_greedy:
  "i \<le> length S \<Longrightarrow>
   fst (fold (merge_step S) (List.enumerate i (drop i S)) (cl, U)) =
     cl @ greedy_clusters (unused U (List.enumerate i (drop i S)))"
proof (induction "length S - i" arbitrary: i cl U)
  case 0
  then show ?case by (simp add: unused_def)
next
  case (Suc n)
  then have i: "i < length S" and n: "n = length S - Suc i" and le: "Suc i \<le> length S" by simp_all
  let ?d = "S ! i"
  let ?es = "List.enumerate (Suc i) (drop (Suc i) S)"
  have es: "List.enumerate i (drop i S) = (i, ?d) # ?es"
    using i by (simp add: Cons_nth_drop_Suc[symmetric])
  show ?case
  proof (cases "i \<in> U")
    case True
    then have "unused U ((i, ?d) # ?es) = unused U ?es" by (simp add: unused_def)
    with True Suc.hyps(1)[OF n le, of cl U] show ?thesis
      unfolding es by simp
  next
    case False
    let ?U' = "U \<union> fst ` set (filter (\<lambda>(j, x). j \<notin> U \<and> near ?d x) ?es)"
    let ?c = "?d # filter (near ?d) (unused U ?es)"
    have step: "merge_step S (i, ?d) (cl, U) = (cl @ [?c], insert i ?U')"
      using False by (simp add: build_cluster_suffix[OF i])
    have un: "unused U ((i, ?d) # ?es) = ?d # unused U ?es"
      using False by (simp add: unused_def)
    have "fst (fold (merge_step S) ((i, ?d) # ?es) (cl, U)) =
          fst (fold (merge_step S) ?es (cl @ [?c], insert i ?U'))"
      unfolding fold_Cons comp_def step ..
    also have "\<dots> = (cl @ [?c]) @ greedy_clusters (unused (insert i ?U') ?es)"
      by (rule Suc.hyps(1)[OF n le])
    also have "unused (insert i ?U') ?es = filter (\<lambda>x. \<not> near ?d x) (unused U ?es)"
      by (rule unused_after_cluster)
    finally show ?thesis
      unfolding es un by simp
  qed
qed

lemma merge_clusters_greedy: "merge_clusters S = greedy_clusters S"
proof -
  have "unused {} (List.enumerate 0 S) = S"
    by (simp add: unused_def)
  with merge_fold_greedy[of 0 S "[]" "{}"] show ?thesis
    by (simp add: merge_clusters_def)
qed

lemma greedy_clusters_set: "\<Union> (set ` set (greedy_clusters T)) = set T"
  by (induction T rule: greedy_clusters.induct) auto

lemma greedy_clusters_lone:
  assumes "filter ((=) d) T = [d]"
    and "\<forall>r \<in> set T. r \<noteq> d \<longrightarrow> \<not> near r d \<and> \<not> near d r"
  shows "\<exists>A B. greedy_clusters T = A @ [d] # B \<and> (\<forall>c \<in> set (A @ B). d \<notin> set c)"
  using assms
proof (induction T rule: greedy_clusters.induct)
  case 1
  then show ?case by simp
next
  case (2 s rest)
  show ?case
  proof (cases "s = d")
    case True
    with "2.prems"(1) have none: "filter ((=) d) rest = []" by simp
    then have notin: "d \<notin> set rest" by (auto simp: filter_empty_conv)
    with "2.prems"(2) have far: "\<forall>r \<in> set rest. \<not> near d r" by auto
    then have f1: "filter (near d) rest = []" by (simp add: filter_empty_conv)
    from far have f2: "filter (\<lambda>x. \<not> near d x) rest = rest" by (simp add: filter_id_conv)
    have g: "greedy_clusters (s # rest) = [] @ [d] # greedy_clusters rest"
      using True f1 f2 by simp
    have "\<forall>c \<in> set ([] @ greedy_clusters rest). d \<notin> set c"
      using greedy_clusters_set[of rest] notin by auto
    with g show ?thesis by blast
  next
    case False
    with "2.prems"(2) have ns: "\<not> near s d" by auto
    let ?T = "filter (\<lambda>x. \<not> near s x) rest"
    have "filter ((=) d) ?T = filter ((=) d) rest"
      unfolding filter_filter by (rule filter_cong) (use ns in auto)
    with False "2.prems"(1) have c: "filter ((=) d) ?T = [d]" by simp
    have iso: "\<forall>r \<in> set ?T. r \<noteq> d \<longrightarrow> \<not> near r d \<and> \<not> near d r"
      using "2.prems"(2) by auto
    from "2.IH"[OF c iso] obtain A B where
      g: "greedy_clusters ?T = A @ [d] # B" and n: "\<forall>c \<in> set (A @ B). d \<notin> set c" by blast
    let ?c = "s # filter (near s) rest"
    have "d \<notin> set ?c" using False ns by auto
    with n have "\<forall>c \<in> set ((?c # A) @ B). d \<notin> set c" by auto
    moreover have "greedy_clusters (s # rest) = (?c # A) @ [d] # B"
      using g by simp
    ultimately show ?thesis by blast
  qed
qed

lemma near_sym: "near a b = near b a"
  by (simp add: near_def euclid_sym[of "det_x a"])

lemma pair_reaches_head:
  assumes "mset (filter (\<lambda>r. r = p \<or> r = q) T) = {#p, q#}"
    and "\<forall>r \<in> set T. r \<noteq> p \<and> r \<noteq> q \<longrightarrow> \<not> near r p \<and> \<not> near r q"
    and "sorted_wrt R T"
  shows "\<exists>A hi lo U. greedy_clusters T = A @ greedy_clusters (hi # U) \<and>
           (hi = p \<and> lo = q \<or> hi = q \<and> lo = p) \<and> R hi lo \<and>
           filter (\<lambda>r. r = p \<or> r = q) U = [lo] \<and> set U \<subseteq> set T \<and>
           (\<forall>c \<in> set A. p \<notin> set c \<and> q \<notin> set c)"
  using assms
proof (induction T rule: greedy_clusters.induct)
  case 1
  then show ?case by simp
next
  case (2 s rest)
  show ?case
  proof (cases "s = p \<or> s = q")
    case True
    define lo where "lo = (if s = p then q else p)"
    from True have pq: "s = p \<and> lo = q \<or> s = q \<and> lo = p" by (auto simp: lo_def)
    from True "2.prems"(1) have "add_mset s (mset (filter (\<lambda>r. r = p \<or> r = q) rest)) = {#p, q#}"
      by simp
    with pq have "mset (filter (\<lambda>r. r = p \<or> r = q) rest) = {#lo#}"
      by (auto simp: add_eq_conv_ex)
    then have f: "filter (\<lambda>r. r = p \<or> r = q) rest = [lo]" by (simp only: mset_single_iff)
    then have "lo \<in> set (filter (\<lambda>r. r = p \<or> r = q) rest)" by simp
    then have "lo \<in> set rest" by simp
    with "2.prems"(3) have "R s lo" by simp
    with pq f have "greedy_clusters (s # rest) = [] @ greedy_clusters (s # rest) \<and>
           (s = p \<and> lo = q \<or> s = q \<and> lo = p) \<and> R s lo \<and>
           filter (\<lambda>r. r = p \<or> r = q) rest = [lo] \<and> set rest \<subseteq> set (s # rest) \<and>
           (\<forall>c \<in> set []. p \<notin> set c \<and> q \<notin> set c)"
      by auto
    then show ?thesis by blast
  next
    case False
    with "2.prems"(2) have ns: "\<not> near s p" "\<not> near s q" by auto
    let ?T = "filter (\<lambda>x. \<not> near s x) rest"
    have "filter (\<lambda>r. r = p \<or> r = q) ?T = filter (\<lambda>r. r = p \<or> r = q) rest"
      unfolding filter_filter by (rule filter_cong) (use ns in auto)
    with False "2.prems"(1) have c: "mset (filter (\<lambda>r. r = p \<or> r = q) ?T) = {#p, q#}" by simp
    have iso: "\<forall>r \<in> set ?T. r \<noteq> p \<and> r \<noteq> q \<longrightarrow> \<not> near r p \<and> \<not> near r q"
      using "2.prems"(2) by auto
    have srt: "sorted_wrt R ?T"
      using "2.prems"(3) by (simp add: sorted_wrt_filter)
    from "2.IH"[OF c iso srt] obtain A hi lo U where
      g: "greedy_clusters ?T = A @ greedy_clusters (hi # U)"
      and pq: "hi = p \<and> lo = q \<or> hi = q \<and> lo = p" and r: "R hi lo"
      and f: "filter (\<lambda>r. r = p \<or> r = q) U = [lo]" and sub: "set U \<subseteq> set ?T"
      and n: "\<forall>c \<in> set A. p \<notin> set c \<and> q \<notin> set c" by blast
    let ?c = "s # filter (near s) rest"
    have "p \<notin> set ?c \<and> q \<notin> set ?c" using False ns by auto
    with n have n': "\<forall>c \<in> set (?c # A). p \<notin> set c \<and> q \<notin> set c" by auto
    have g': "greedy_clusters (s # rest) = (?c # A) @ greedy_clusters (hi # U)"
      using g by simp
    from sub have sub': "set U \<subseteq> set (s # rest)" by auto
    from g' pq r f sub' n' show ?thesis by blast
  qed
qed

lemma near_refl: "near a a"
  by (simp add: near_def euclid_def distance_threshold_def)

lemma head_near:
  assumes f: "filter (\<lambda>r. r = p \<or> r = q) U = [lo]"
    and pq: "hi = p \<and> lo = q \<or> hi = q \<and> lo = p"
    and iso: "\<forall>r \<in> set U. r \<noteq> p \<and> r \<noteq> q \<longrightarrow> \<not> near hi r"
    and nr: "near hi lo"
  shows "\<exists>B. greedy_clusters (hi # U) = [hi, lo] # B \<and> (\<forall>c \<in> set B. p \<notin> set c \<and> q \<notin> set c)"
proof -
  have only: "\<And>r. r \<in> set U \<Longrightarrow> r = p \<or> r = q \<Longrightarrow> r = lo"
  proof -
    fix r assume "r \<in> set U" "r = p \<or> r = q"
    then have "r \<in> set (filter (\<lambda>r. r = p \<or> r = q) U)" by simp
    then show "r = lo" unfolding f by simp
  qed
  have "filter (near hi) U = filter (\<lambda>r. r = p \<or> r = q) U"
    by (rule filter_cong) (use only iso nr in auto)
  then have c: "filter (near hi) U = [lo]" using f by simp
  let ?T = "filter (\<lambda>x. \<not> near hi x) U"
  have "\<forall>r \<in> set ?T. r \<noteq> p \<and> r \<noteq> q"
    using only nr by auto
  then have "\<forall>c \<in> set (greedy_clusters ?T). p \<notin> set c \<and> q \<notin> set c"
    using greedy_clusters_set[of ?T] by blast
  moreover have "greedy_clusters (hi # U) = [hi, lo] # greedy_clusters ?T"
    using c by simp
  ultimately show ?thesis by blast
qed

lemma head_far:
  assumes f: "filter (\<lambda>r. r = p \<or> r = q) U = [lo]"
    and pq: "hi = p \<and> lo = q \<or> hi = q \<and> lo = p"
    and iso: "\<forall>r \<in> set U. r \<noteq> p \<and> r \<noteq> q \<longrightarrow>
                \<not> near hi r \<and> \<not> near lo r \<and> \<not> near r lo"
    and nr: "\<not> near hi lo"
  shows "\<exists>B C. greedy_clusters (hi # U) = [hi] # B @ [lo] # C \<and>
           (\<forall>c \<in> set (B @ C). p \<notin> set c \<and> q \<notin> set c)"
proof -
  have only: "\<And>r. r \<in> set U \<Longrightarrow> r = p \<or> r = q \<Longrightarrow> r = lo"
  proof -
    fix r assume "r \<in> set U" "r = p \<or> r = q"
    then have "r \<in> set (filter (\<lambda>r. r = p \<or> r = q) U)" by simp
    then show "r = lo" unfolding f by simp
  qed
  from nr near_refl[of hi] have ne: "hi \<noteq> lo" by auto
  have far: "\<forall>r \<in> set U. \<not> near hi r"
    using only iso nr by blast
  then have f1: "filter (near hi) U = []" by (simp add: filter_empty_conv)
  from far have f2: "filter (\<lambda>x. \<not> near hi x) U = U" by (simp add: filter_id_conv)
  have g: "greedy_clusters (hi # U) = [hi] # greedy_clusters U"
    using f1 f2 by simp
  have "filter ((=) lo) (filter (\<lambda>r. r = p \<or> r = q) U) = filter ((=) lo) U"
    unfolding filter_filter by (rule filter_cong) (use pq in auto)
  then have one: "filter ((=) lo) U = [lo]" unfolding f by simp
  have iso': "\<forall>r \<in> set U. r \<noteq> lo \<longrightarrow> \<not> near r lo \<and> \<not> near lo r"
    using only iso by blast
  from greedy_clusters_lone[OF one iso'] obtain B C where
    gu: "greedy_clusters U = B @ [lo] # C" and n: "\<forall>c \<in> set (B @ C). lo \<notin> set c" by blast
  have "hi \<notin> set U" using only[of hi] pq ne by auto
  then have "\<forall>c \<in> set (greedy_clusters U). hi \<notin> set c"
    using greedy_clusters_set[of U] by blast
  then have "\<forall>c \<in> set (B @ C). hi \<notin> set c" unfolding gu by auto
  with n pq have "\<forall>c \<in> set (B @ C). p \<notin> set c \<and> q \<notin> set c" by auto
  with g gu show ?thesis by auto
qed

lemma isolated_pair_clusters:
  assumes occ: "mset (filter (\<lambda>r. r = p \<or> r = q) T) = {#p, q#}"
    and iso: "\<forall>r \<in> set T. r \<noteq> p \<and> r \<noteq> q \<longrightarrow> \<not> near r p \<and> \<not> near r q"
    and srt: "sorted_wrt R T"
  shows "near p q \<Longrightarrow>
           \<exists>A B hi lo. (hi = p \<and> lo = q \<or> hi = q \<and> lo = p) \<and> R hi lo \<and>
              greedy_clusters T = A @ [hi, lo] # B \<and>
              (\<forall>c \<in> set (A @ B). p \<notin> set c \<and> q \<notin> set c)"
    and "\<not> near p q \<Longrightarrow>
           \<exists>A B C hi lo. (hi = p \<and> lo = q \<or> hi = q \<and> lo = p) \<and> R hi lo \<and>
              greedy_clusters T = A @ [hi] # B @ [lo] # C \<and>
              (\<forall>c \<in> set (A @ B @ C). p \<notin> set c \<and> q \<notin> set c)"
proof -
  from pair_reaches_head[OF occ iso srt] obtain A hi lo U where
    g: "greedy_clusters T = A @ greedy_clusters (hi # U)"
    and pq: "hi = p \<and> lo = q \<or> hi = q \<and> lo = p" and r: "R hi lo"
    and f: "filter (\<lambda>r. r = p \<or> r = q) U = [lo]" and sub: "set U \<subseteq> set T"
    and n: "\<forall>c \<in> set A. p \<notin> set c \<and> q \<notin> set c" by blast
  have isoU: "\<forall>r \<in> set U. r \<noteq> p \<and> r \<noteq> q \<longrightarrow>
                \<not> near hi r \<and> \<not> near lo r \<and> \<not> near r lo"
    using iso sub pq near_sym by blast
  {
    assume "near p q"
    with pq have "near hi lo" using near_sym by blast
    from head_near[OF f pq _ this] isoU obtain B where
      "greedy_clusters (hi # U) = [hi, lo] # B" "\<forall>c \<in> set B. p \<notin> set c \<and> q \<notin> set c"
      by blast
    with g n have "greedy_clusters T = A @ [hi, lo] # B \<and>
        (\<forall>c \<in> set (A @ B). p \<notin> set c \<and> q \<notin> set c)" by auto
    with pq r show "\<exists>A B hi lo. (hi = p \<and> lo = q \<or> hi = q \<and> lo = p) \<and> R hi lo \<and>
              greedy_clusters T = A @ [hi, lo] # B \<and>
              (\<forall>c \<in> set (A @ B). p \<notin> set c \<and> q \<notin> set c)" by blast
  }
  {
    assume "\<not> near p q"
    with pq have "\<not> near hi lo" using near_sym by blast
    from head_far[OF f pq isoU this] obtain B C where
      "greedy_clusters (hi # U) = [hi] # B @ [lo] # C"
      "\<forall>c \<in> set (B @ C). p \<notin> set c \<and> q \<notin> set c"
      by blast
    with g n have "greedy_clusters T = A @ [hi] # B @ [lo] # C \<and>
        (\<forall>c \<in> set (A @ B @ C). p \<notin> set c \<and> q \<notin> set c)" by auto
    with pq r show "\<exists>A B C hi lo. (hi = p \<and> lo = q \<or> hi = q \<and> lo = p) \<and> R hi lo \<and>
              greedy_clusters T = A @ [hi] # B @ [lo] # C \<and>
              (\<forall>c \<in> set (A @ B @ C). p \<notin> set c \<and> q \<notin> set c)" by blast
  }
qed

lemma fuse_pair:
  assumes "hi = (x1, y1, c1) \<and> lo = (x2, y2, c2) \<or> hi = (x2, y2, c2) \<and> lo = (x1, y1, c1)"
  shows "fuse [hi, lo] =
           ((x1 * c1 + x2 * c2) / (c1 + c2), (y1 * c1 + y2 * c2) / (c1 + c2), (c1 + c2) / 2)"
  using assms by (auto simp: fuse_two add.commute)

text \<open>
  C7, as the code has it. Two candidates with positive confidences of one frame, every other
  candidate of which lies 20 px or more from both: when they are closer than the merge radius
  of 20 px (so at 15 px) they form one cluster, no other cluster contains either of them, and
  they fuse into exactly one point, whose position is the confidence-weighted mean of the two
  positions and whose confidence is the arithmetic mean \<open>(c1 + c2) / 2\<close> of the two
  confidences; when they are 20 px or more apart (so at 25 px) each is a cluster of its own,
  no other cluster contains either of them, and they stay two fused points, unchanged, the
  more confident first.
\<close>

theorem isolated_pair_fuses_within_radius:
  "concat dl = xs @ (x1, y1, c1) # ys @ (x2, y2, c2) # zs \<Longrightarrow> 0 < c1 \<Longrightarrow> 0 < c2 \<Longrightarrow>
   \<forall>r \<in> set (xs @ ys @ zs). 20 \<le> euclid (det_x r) (det_y r) x1 y1 \<and>
                            20 \<le> euclid (det_x r) (det_y r) x2 y2 \<Longrightarrow>
   (euclid x1 y1 x2 y2 < 20 \<longrightarrow>
      (\<exists>A B hi lo.
         (hi = (x1, y1, c1) \<and> lo = (x2, y2, c2) \<or> hi = (x2, y2, c2) \<and> lo = (x1, y1, c1)) \<and>
         det_conf lo \<le> det_conf hi \<and>
         merge_clusters (sort_by_conf_desc (concat dl)) = A @ [hi, lo] # B \<and>
         (\<forall>c \<in> set (A @ B). (x1, y1, c1) \<notin> set c \<and> (x2, y2, c2) \<notin> set c) \<and>
         merge_detections dl =
           map fuse A @
           ((x1 * c1 + x2 * c2) / (c1 + c2), (y1 * c1 + y2 * c2) / (c1 + c2), (c1 + c2) / 2) #
           map fuse B)) \<and>
   (20 \<le> euclid x1 y1 x2 y2 \<longrightarrow>
      (\<exists>A B C hi lo.
         (hi = (x1, y1, c1) \<and> lo = (x2, y2, c2) \<or> hi = (x2, y2, c2) \<and> lo = (x1, y1, c1)) \<and>
         det_conf lo \<le> det_conf hi \<and>
         merge_clusters (sort_by_conf_desc (concat dl)) = A @ [hi] # B @ [lo] # C \<and>
         (\<forall>c \<in> set (A @ B @ C). (x1, y1, c1) \<notin> set c \<and> (x2, y2, c2) \<notin> set c) \<and>
         merge_detections dl = map fuse A @ hi # map fuse B @ lo # map fuse C))"
proof -
  let ?p = "(x1, y1, c1)" and ?q = "(x2, y2, c2)"
  let ?S = "sort_by_conf_desc (concat dl)"
  let ?R = "\<lambda>a b. det_conf b \<le> det_conf a"
  assume cs: "concat dl = xs @ ?p # ys @ ?q # zs" and c1: "0 < c1" and c2: "0 < c2"
    and far: "\<forall>r \<in> set (xs @ ys @ zs). 20 \<le> euclid (det_x r) (det_y r) x1 y1 \<and>
                            20 \<le> euclid (det_x r) (det_y r) x2 y2"
  have md: "merge_detections dl = map fuse (greedy_clusters ?S)"
    using cs by (simp add: merge_detections_def merge_clusters_greedy)
  have other: "\<forall>r \<in> set (xs @ ys @ zs). r \<noteq> ?p \<and> r \<noteq> ?q"
  proof (intro ballI conjI notI)
    fix r assume r: "r \<in> set (xs @ ys @ zs)" and e: "r = ?p"
    from far r have "20 \<le> euclid (det_x r) (det_y r) x1 y1" by blast
    then show False unfolding e by (simp add: det_simps euclid_def)
  next
    fix r assume r: "r \<in> set (xs @ ys @ zs)" and e: "r = ?q"
    from far r have "20 \<le> euclid (det_x r) (det_y r) x2 y2" by blast
    then show False unfolding e by (simp add: det_simps euclid_def)
  qed
  then have fo: "filter (\<lambda>r. r = ?p \<or> r = ?q) xs = []" "filter (\<lambda>r. r = ?p \<or> r = ?q) ys = []"
    "filter (\<lambda>r. r = ?p \<or> r = ?q) zs = []"
    by (auto simp: filter_empty_conv)
  have mS: "mset ?S = mset (concat dl)" by (simp add: sort_by_conf_desc_def)
  have "mset (filter (\<lambda>r. r = ?p \<or> r = ?q) ?S) = mset (filter (\<lambda>r. r = ?p \<or> r = ?q) (concat dl))"
    unfolding mset_filter mS ..
  also have "\<dots> = {#?p, ?q#}"
    unfolding cs by (simp add: fo)
  finally have occ: "mset (filter (\<lambda>r. r = ?p \<or> r = ?q) ?S) = {#?p, ?q#}" .
  have setS: "set ?S = set (concat dl)" by (simp add: sort_by_conf_desc_def)
  have iso: "\<forall>r \<in> set ?S. r \<noteq> ?p \<and> r \<noteq> ?q \<longrightarrow> \<not> near r ?p \<and> \<not> near r ?q"
  proof (intro ballI impI)
    fix r assume "r \<in> set ?S" and ne: "r \<noteq> ?p \<and> r \<noteq> ?q"
    then have "r \<in> set (concat dl)" by (simp only: setS)
    then have "r \<in> set (xs @ ?p # ys @ ?q # zs)" by (simp only: cs)
    with ne have "r \<in> set (xs @ ys @ zs)" by auto
    with far have "20 \<le> euclid (det_x r) (det_y r) x1 y1 \<and> 20 \<le> euclid (det_x r) (det_y r) x2 y2"
      by blast
    then show "\<not> near r ?p \<and> \<not> near r ?q"
      by (simp add: near_def det_simps distance_threshold_def)
  qed
  have srt: "sorted_wrt ?R ?S" by (rule sorted_by_conf_desc)
  have nr: "near ?p ?q \<longleftrightarrow> euclid x1 y1 x2 y2 < 20"
    by (simp add: near_def det_simps distance_threshold_def)
  note ipc = isolated_pair_clusters[OF occ iso srt]
  have a: "euclid x1 y1 x2 y2 < 20 \<longrightarrow>
      (\<exists>A B hi lo.
         (hi = ?p \<and> lo = ?q \<or> hi = ?q \<and> lo = ?p) \<and> det_conf lo \<le> det_conf hi \<and>
         merge_clusters ?S = A @ [hi, lo] # B \<and>
         (\<forall>c \<in> set (A @ B). ?p \<notin> set c \<and> ?q \<notin> set c) \<and>
         merge_detections dl =
           map fuse A @
           ((x1 * c1 + x2 * c2) / (c1 + c2), (y1 * c1 + y2 * c2) / (c1 + c2), (c1 + c2) / 2) #
           map fuse B)"
  proof
    assume "euclid x1 y1 x2 y2 < 20"
    with nr have "near ?p ?q" by simp
    from ipc(1)[OF this] obtain A B hi lo where
      pq: "hi = ?p \<and> lo = ?q \<or> hi = ?q \<and> lo = ?p" and r: "det_conf lo \<le> det_conf hi"
      and g: "greedy_clusters ?S = A @ [hi, lo] # B"
      and n: "\<forall>c \<in> set (A @ B). ?p \<notin> set c \<and> ?q \<notin> set c" by blast
    have "merge_detections dl =
           map fuse A @
           ((x1 * c1 + x2 * c2) / (c1 + c2), (y1 * c1 + y2 * c2) / (c1 + c2), (c1 + c2) / 2) #
           map fuse B"
      unfolding md g by (simp add: fuse_pair[OF pq])
    with pq r g n show "\<exists>A B hi lo.
         (hi = ?p \<and> lo = ?q \<or> hi = ?q \<and> lo = ?p) \<and> det_conf lo \<le> det_conf hi \<and>
         merge_clusters ?S = A @ [hi, lo] # B \<and>
         (\<forall>c \<in> set (A @ B). ?p \<notin> set c \<and> ?q \<notin> set c) \<and>
         merge_detections dl =
           map fuse A @
           ((x1 * c1 + x2 * c2) / (c1 + c2), (y1 * c1 + y2 * c2) / (c1 + c2), (c1 + c2) / 2) #
           map fuse B"
      unfolding merge_clusters_greedy by blast
  qed
  have b: "20 \<le> euclid x1 y1 x2 y2 \<longrightarrow>
      (\<exists>A B C hi lo.
         (hi = ?p \<and> lo = ?q \<or> hi = ?q \<and> lo = ?p) \<and> det_conf lo \<le> det_conf hi \<and>
         merge_clusters ?S = A @ [hi] # B @ [lo] # C \<and>
         (\<forall>c \<in> set (A @ B @ C). ?p \<notin> set c \<and> ?q \<notin> set c) \<and>
         merge_detections dl = map fuse A @ hi # map fuse B @ lo # map fuse C)"
  proof
    assume "20 \<le> euclid x1 y1 x2 y2"
    with nr have "\<not> near ?p ?q" by simp
    from ipc(2)[OF this] obtain A B C hi lo where
      pq: "hi = ?p \<and> lo = ?q \<or> hi = ?q \<and> lo = ?p" and r: "det_conf lo \<le> det_conf hi"
      and g: "greedy_clusters ?S = A @ [hi] # B @ [lo] # C"
      and n: "\<forall>c \<in> set (A @ B @ C). ?p \<notin> set c \<and> ?q \<notin> set c" by blast
    from pq c1 c2 have "fuse [hi] = hi" "fuse [lo] = lo"
      by (auto simp: fuse_one)
    then have "merge_detections dl = map fuse A @ hi # map fuse B @ lo # map fuse C"
      unfolding md g by simp
    with pq r g n show "\<exists>A B C hi lo.
         (hi = ?p \<and> lo = ?q \<or> hi = ?q \<and> lo = ?p) \<and> det_conf lo \<le> det_conf hi \<and>
         merge_clusters ?S = A @ [hi] # B @ [lo] # C \<and>
         (\<forall>c \<in> set (A @ B @ C). ?p \<notin> set c \<and> ?q \<notin> set c) \<and>
         merge_detections dl = map fuse A @ hi # map fuse B @ lo # map fuse C"
      unfolding merge_clusters_greedy by blast
  qed
  from a b show ?thesis by (rule conjI)
qed

text \<open>
  Three frames on which the claim as stated fails.

  The fused confidence is not the confidence-weighted mean of the input confidences: two points
  15 px apart with confidences 1 and 1/2 fuse into one point of confidence 3/4, while the
  confidence-weighted mean of 1 and 1/2 is 5/6.

  With a third candidate in the frame, two candidates 15 px apart need not fuse: of the points
  at x = 0, 15, 30 with confidences 1, 1/2, 1/4, the seed at 0 absorbs the point at 15, and the
  point at 30, 15 px from the point at 15, stays a fused point of its own.

  With a third candidate in the frame, two candidates 25 px apart can fuse: the points at
  x = 0 and x = 25 lie both within 20 px of the more confident point at x = 25/2, whose
  cluster takes them both.
\<close>

theorem fused_confidence_counterexample:
  "merge_detections [[(0, 0, 1)], [(15, 0, 1/2)]] = [(5, 0, 3/4)] \<and>
   euclid 0 0 15 0 = 15 \<and> (3/4 :: real) \<noteq> (1 * 1 + (1/2) * (1/2)) / (1 + 1/2) \<and>
   merge_detections [[(0, 0, 1), (15, 0, 1/2), (30, 0, 1/4)]] = [(5, 0, 3/4), (30, 0, 1/4)] \<and>
   euclid 15 0 30 0 = 15 \<and>
   merge_detections [[(0, 0, 1/2), (25, 0, 1/2), (25/2, 0, 1)]] = [(25/2, 0, 2/3)] \<and>
   euclid 0 0 25 0 = 25"
  by (simp add: merge_detections_def sort_by_conf_desc_def det_simps merge_clusters_def
        build_cluster_def distance_threshold_def fuse_def euclid_axis)

lemma near_frame:
  "merge_clusters (sort_by_conf_desc (concat [[(0, 0, 1)], [(15, 0, 1/2)], [(100, 0, 1/4)]])) =
     [[(0, 0, 1), (15, 0, 1/2)], [(100, 0, 1/4)]]"
  "merge_detections [[(0, 0, 1)], [(15, 0, 1/2)], [(100, 0, 1/4)]] = [(5, 0, 3/4), (100, 0, 1/4)]"
  by (simp_all add: merge_detections_def sort_by_conf_desc_def det_simps merge_clusters_def
        build_cluster_def distance_threshold_def fuse_def euclid_axis)

lemma far_frame:
  "merge_clusters (sort_by_conf_desc (concat [[(0, 0, 1/2)], [(100, 0, 1/4)], [(25, 0, 1)]])) =
     [[(25, 0, 1)], [(0, 0, 1/2)], [(100, 0, 1/4)]]"
  "merge_detections [[(0, 0, 1/2)], [(100, 0, 1/4)], [(25, 0, 1)]] =
     [(25, 0, 1), (0, 0, 1/2), (100, 0, 1/4)]"
  by (simp_all add: merge_detections_def sort_by_conf_desc_def det_simps merge_clusters_def
        build_cluster_def distance_threshold_def fuse_def euclid_axis)

theorem isolated_pair_fuses_within_radius_witness:
  "concat [[(0, 0, 1)], [(15, 0, 1/2)], [(100, 0, 1/4)]] =
     [] @ (0, 0, 1) # [] @ (15, 0, 1/2) # [(100, 0, 1/4) :: det] \<and>
   set ([] @ [] @ [(100, 0, 1/4) :: det]) = {(100, 0, 1/4)} \<and>
   20 \<le> euclid (det_x (100, 0, 1/4)) (det_y (100, 0, 1/4)) 0 0 \<and>
   20 \<le> euclid (det_x (100, 0, 1/4)) (det_y (100, 0, 1/4)) 15 0 \<and>
   euclid 0 0 15 0 < 20 \<and>
   merge_clusters (sort_by_conf_desc (concat [[(0, 0, 1)], [(15, 0, 1/2)], [(100, 0, 1/4)]])) =
     [[(0, 0, 1), (15, 0, 1/2)], [(100, 0, 1/4)]] \<and>
   merge_detections [[(0, 0, 1)], [(15, 0, 1/2)], [(100, 0, 1/4)]] =
     [(5, 0, 3/4), (100, 0, 1/4)] \<and>
   (5, 0, 3/4) \<in> set (merge_detections [[(0, 0, 1)], [(15, 0, 1/2)], [(100, 0, 1/4)]]) \<and>
   concat [[(0, 0, 1/2)], [(100, 0, 1/4)], [(25, 0, 1)]] =
     [] @ (0, 0, 1/2) # [(100, 0, 1/4)] @ ((25, 0, 1) :: det) # [] \<and>
   set ([] @ [(100, 0, 1/4) :: det] @ []) = {(100, 0, 1/4)} \<and>
   20 \<le> euclid (det_x (100, 0, 1/4)) (det_y (100, 0, 1/4)) 0 0 \<and>
   20 \<le> euclid (det_x (100, 0, 1/4)) (det_y (100, 0, 1/4)) 25 0 \<and>
   20 \<le> euclid 0 0 25 0 \<and>
   merge_clusters (sort_by_conf_desc (concat [[(0, 0, 1/2)], [(100, 0, 1/4)], [(25, 0, 1)]])) =
     [[(25, 0, 1)], [(0, 0, 1/2)], [(100, 0, 1/4)]] \<and>
   merge_detections [[(0, 0, 1/2)], [(100, 0, 1/4)], [(25, 0, 1)]] =
     [(25, 0, 1), (0, 0, 1/2), (100, 0, 1/4)] \<and>
   (0, 0, 1/2) \<in> set (merge_detections [[(0, 0, 1/2)], [(100, 0, 1/4)], [(25, 0, 1)]]) \<and>
   (25, 0, 1) \<in> set (merge_detections [[(0, 0, 1/2)], [(100, 0, 1/4)], [(25, 0, 1)]])"
proof -
  let ?D1 = "[[(0, 0, 1)], [(15, 0, 1/2)], [(100, 0, 1/4 :: real)]] :: det list list"
  let ?D2 = "[[(0, 0, 1/2)], [(100, 0, 1/4)], [(25, 0, 1 :: real)]] :: det list list"
  have c1: "concat ?D1 = [] @ (0, 0, 1) # [] @ (15, 0, 1/2) # [(100, 0, 1/4)]" by simp
  have i1: "\<forall>r \<in> set ([] @ [] @ [(100, 0, 1/4 :: real)]).
       20 \<le> euclid (det_x r) (det_y r) 0 0 \<and> 20 \<le> euclid (det_x r) (det_y r) 15 0"
    by (simp add: det_simps euclid_axis)
  have e1: "euclid 0 0 15 0 < 20" by (simp add: euclid_axis)
  have c2: "concat ?D2 = [] @ (0, 0, 1/2) # [(100, 0, 1/4)] @ (25, 0, 1) # []" by simp
  have i2: "\<forall>r \<in> set ([] @ [(100, 0, 1/4 :: real)] @ []).
       20 \<le> euclid (det_x r) (det_y r) 0 0 \<and> 20 \<le> euclid (det_x r) (det_y r) 25 0"
    by (simp add: det_simps euclid_axis)
  have e2: "20 \<le> euclid 0 0 25 0" by (simp add: euclid_axis)
  have pos: "(0::real) < 1" "(0::real) < 1/2" by simp_all
  note t1 = isolated_pair_fuses_within_radius[OF c1 pos(1) pos(2) i1]
  from t1 e1 obtain A B where "merge_detections ?D1 =
      map fuse A @ ((0 * 1 + 15 * (1/2)) / (1 + 1/2), (0 * 1 + 0 * (1/2)) / (1 + 1/2), (1 + 1/2) / 2) #
      map fuse B"
    by blast
  then have m1: "(5, 0, 3/4) \<in> set (merge_detections ?D1)" by simp
  note t2 = isolated_pair_fuses_within_radius[OF c2 pos(2) pos(1) i2]
  from t2 e2 obtain A B C hi lo where
    "hi = (0, 0, 1/2) \<and> lo = (25, 0, 1) \<or> hi = (25, 0, 1) \<and> lo = (0, 0, 1/2)"
    "merge_detections ?D2 = map fuse A @ hi # map fuse B @ lo # map fuse C"
    by blast
  then have m2: "(0, 0, 1/2) \<in> set (merge_detections ?D2)" "(25, 0, 1) \<in> set (merge_detections ?D2)"
    by auto
  have j: "set ([] @ [] @ [(100, 0, 1/4) :: det]) = {(100, 0, 1/4)}"
    "set ([] @ [(100, 0, 1/4) :: det] @ []) = {(100, 0, 1/4)}"
    "20 \<le> euclid (det_x (100, 0, 1/4)) (det_y (100, 0, 1/4)) 0 0"
    "20 \<le> euclid (det_x (100, 0, 1/4)) (det_y (100, 0, 1/4)) 15 0"
    "20 \<le> euclid (det_x (100, 0, 1/4)) (det_y (100, 0, 1/4)) 25 0"
    by (simp_all add: det_simps euclid_axis)
  show ?thesis
    using c1 j e1 c2 e2 m1 m2 near_frame far_frame by blast
qed


subsection \<open>Capping the fused points\<close>

lemma absorb_fold_prefix:
  "\<exists>ws. fst (fold (absorb_step i d) es (c, u)) = c @ ws"
proof (induction es arbitrary: c u)
  case Nil
  then show ?case by simp
next
  case (Cons e es)
  obtain j x2 y2 c2 where e: "e = (j, (x2, y2, c2))" by (cases e) auto
  obtain x1 y1 c1 where d: "d = (x1, y1, c1)" by (cases d) auto
  show ?case
  proof (cases "j \<le> i \<or> j \<in> u \<or> \<not> euclid x1 y1 x2 y2 < distance_threshold")
    case True
    then have "fold (absorb_step i d) (e # es) (c, u) = fold (absorb_step i d) es (c, u)"
      by (auto simp: e d)
    then show ?thesis using Cons.IH[of c u] by simp
  next
    case False
    then have "fold (absorb_step i d) (e # es) (c, u) =
                 fold (absorb_step i d) es (c @ [(x2, y2, c2)], insert j u)"
      by (auto simp: e d)
    then show ?thesis using Cons.IH[of "c @ [(x2, y2, c2)]" "insert j u"] by auto
  qed
qed

lemma build_cluster_seed:
  "\<exists>ws. fst (build_cluster all_detections i d used) = d # ws"
  using absorb_fold_prefix[of i d "List.enumerate 0 all_detections" "[d]" used]
  by (simp add: build_cluster_def)

lemma merge_fold_seeds_sorted:
  assumes "sorted_wrt R (map hd cl @ map snd es)"
  shows "sorted_wrt R (map hd (fst (fold (merge_step all_detections) es (cl, u))))"
  using assms
proof (induction es arbitrary: cl u)
  case Nil
  then show ?case by simp
next
  case (Cons e es)
  obtain i d where e: "e = (i, d)" by (cases e) auto
  show ?case
  proof (cases "i \<in> u")
    case True
    from Cons.prems have "sorted_wrt R (map hd cl @ map snd es)"
      by (auto simp: sorted_wrt_append)
    from Cons.IH[OF this] True show ?thesis by (simp add: e)
  next
    case False
    obtain cluster u' where b: "build_cluster all_detections i d u = (cluster, u')"
      by (cases "build_cluster all_detections i d u") auto
    with build_cluster_seed[of all_detections i d u] have hd: "hd cluster = d" by auto
    from Cons.prems have "sorted_wrt R (map hd (cl @ [cluster]) @ map snd es)"
      by (simp add: e hd)
    from Cons.IH[OF this] False b show ?thesis by (simp add: e)
  qed
qed

lemma merge_fold_nonempty:
  assumes "\<forall>c \<in> set cl. c \<noteq> []"
  shows "\<forall>c \<in> set (fst (fold (merge_step all_detections) es (cl, u))). c \<noteq> []"
  using assms
proof (induction es arbitrary: cl u)
  case Nil
  then show ?case by simp
next
  case (Cons e es)
  obtain i d where e: "e = (i, d)" by (cases e) auto
  show ?case
  proof (cases "i \<in> u")
    case True
    with Cons show ?thesis by (simp add: e)
  next
    case False
    obtain cluster u' where b: "build_cluster all_detections i d u = (cluster, u')"
      by (cases "build_cluster all_detections i d u") auto
    with build_cluster_seed[of all_detections i d u] have "cluster \<noteq> []" by auto
    with Cons.prems have "\<forall>c \<in> set (cl @ [cluster]). c \<noteq> []" by simp
    from Cons.IH[OF this] False b show ?thesis by (simp add: e)
  qed
qed

lemma cluster_seeds_sorted:
  "sorted_wrt (\<lambda>a b. det_conf b \<le> det_conf a) (map hd (merge_clusters (sort_by_conf_desc ds)))"
  unfolding merge_clusters_def
  by (rule merge_fold_seeds_sorted) (simp add: sorted_by_conf_desc)

lemma clusters_nonempty: "\<forall>c \<in> set (merge_clusters ds). c \<noteq> []"
  unfolding merge_clusters_def by (rule merge_fold_nonempty) simp

text \<open>
  C8, as the code has it. When fusion produces more than three points, \<open>detect\<close> passes on
  exactly three: the first three of the fusion output, which are the fused points of the first
  three clusters. Clusters come in descending order of the confidence of their seed, so the
  seed of every retained cluster is at least as confident as the seed of every dropped one.
\<close>

theorem cap_keeps_first_three_clusters:
  "3 < length (merge_detections dl) \<Longrightarrow>
     cap_detections (merge_detections dl) =
       map fuse (take 3 (merge_clusters (sort_by_conf_desc (concat dl)))) \<and>
     length (cap_detections (merge_detections dl)) = 3 \<and>
     (\<forall>c \<in> set (take 3 (merge_clusters (sort_by_conf_desc (concat dl)))).
      \<forall>c' \<in> set (drop 3 (merge_clusters (sort_by_conf_desc (concat dl)))).
         c \<noteq> [] \<and> c' \<noteq> [] \<and> det_conf (hd c') \<le> det_conf (hd c))"
proof -
  let ?cl = "merge_clusters (sort_by_conf_desc (concat dl))"
  assume a: "3 < length (merge_detections dl)"
  then have ne: "concat dl \<noteq> []"
    by (auto simp: merge_detections_def Let_def split: if_splits)
  then have m: "merge_detections dl = map fuse ?cl"
    by (auto simp: merge_detections_def Let_def)
  with a have cap: "cap_detections (merge_detections dl) = map fuse (take 3 ?cl)"
    by (simp add: cap_detections_def expected_leds_def take_map)
  from a have "3 < length ?cl" by (simp add: m)
  then have len: "length (cap_detections (merge_detections dl)) = 3"
    unfolding cap by simp
  have "sorted_wrt (\<lambda>a b. det_conf b \<le> det_conf a) (map hd (take 3 ?cl @ drop 3 ?cl))"
    using cluster_seeds_sorted[of "concat dl"] by simp
  then have ord: "\<forall>c \<in> set (take 3 ?cl). \<forall>c' \<in> set (drop 3 ?cl). det_conf (hd c') \<le> det_conf (hd c)"
    unfolding map_append sorted_wrt_append by auto
  have non: "\<forall>c \<in> set (take 3 ?cl). c \<noteq> []" "\<forall>c \<in> set (drop 3 ?cl). c \<noteq> []"
    using clusters_nonempty[of "sort_by_conf_desc (concat dl)"]
    by (auto dest: in_set_takeD in_set_dropD)
  from cap len ord non show ?thesis by blast
qed


lemma five_candidates_clusters:
  "merge_clusters (sort_by_conf_desc
      [(0, 0, 9/10), (100, 0, 4/5), (110, 0, 2/5), (200, 0, 3/4), (300, 0, 7/10)]) =
     [[(0, 0, 9/10)], [(100, 0, 4/5), (110, 0, 2/5)], [(200, 0, 3/4)], [(300, 0, 7/10)]]"
  by (simp add: sort_by_conf_desc_def det_simps merge_clusters_def build_cluster_def
      distance_threshold_def euclid_axis)

lemma five_candidates_merged:
  "merge_detections [[(0, 0, 9/10), (100, 0, 4/5), (110, 0, 2/5), (200, 0, 3/4), (300, 0, 7/10)]] =
     [(0, 0, 9/10), (310/3, 0, 3/5), (200, 0, 3/4), (300, 0, 7/10)]"
  by (simp add: merge_detections_def five_candidates_clusters fuse_one fuse_two)

text \<open>
  The retained points are not the three of highest fused confidence: of five candidates, the
  second cluster (seed 4/5, absorbed point 2/5) has fused confidence 3/5 and is kept, while
  the fourth fused point, of confidence 7/10, is dropped.
\<close>

theorem cap_by_confidence_counterexample:
  "merge_detections [[(0, 0, 9/10), (100, 0, 4/5), (110, 0, 2/5), (200, 0, 3/4), (300, 0, 7/10)]] =
     [(0, 0, 9/10), (310/3, 0, 3/5), (200, 0, 3/4), (300, 0, 7/10)] \<and>
   cap_detections (merge_detections
     [[(0, 0, 9/10), (100, 0, 4/5), (110, 0, 2/5), (200, 0, 3/4), (300, 0, 7/10)]]) =
     [(0, 0, 9/10), (310/3, 0, 3/5), (200, 0, 3/4)] \<and>
   det_conf (310/3, 0, 3/5) < det_conf (300, 0, 7/10)"
  by (simp add: five_candidates_merged cap_detections_def expected_leds_def det_simps)

theorem cap_keeps_first_three_clusters_witness:
  "3 < length (merge_detections
     [[(0, 0, 9/10), (100, 0, 4/5), (110, 0, 2/5), (200, 0, 3/4), (300, 0, 7/10)]]) \<and>
   cap_detections (merge_detections
     [[(0, 0, 9/10), (100, 0, 4/5), (110, 0, 2/5), (200, 0, 3/4), (300, 0, 7/10)]]) =
     map fuse [[(0, 0, 9/10)], [(100, 0, 4/5), (110, 0, 2/5)], [(200, 0, 3/4)]] \<and>
   [(100, 0, 4/5), (110, 0, 2/5)] \<in> set (take 3 (merge_clusters (sort_by_conf_desc (concat
     [[(0, 0, 9/10), (100, 0, 4/5), (110, 0, 2/5), (200, 0, 3/4), (300, 0, 7/10)]])))) \<and>
   [(300, 0, 7/10)] \<in> set (drop 3 (merge_clusters (sort_by_conf_desc (concat
     [[(0, 0, 9/10), (100, 0, 4/5), (110, 0, 2/5), (200, 0, 3/4), (300, 0, 7/10)]])))) \<and>
   det_conf (hd [(300, 0, 7/10)]) \<le> det_conf (hd [(100, 0, 4/5), (110, 0, 2/5)])"
  using cap_keeps_first_three_clusters
    [of "[[(0, 0, 9/10), (100, 0, 4/5), (110, 0, 2/5), (200, 0, 3/4), (300, 0, 7/10)]]"]
  by (simp add: five_candidates_merged five_candidates_clusters det_simps)

subsection \<open>Outlier rejection\<close>

lemma bool_index_map: "bool_index a (map P a) = filter P a"
  by (induction a) (auto simp: bool_index_def)

lemma valid_mask_retained: "valid_mask positions = map (retained positions) positions"
  by (simp add: valid_mask_def mask_and_def retained_def within_iqr_bounds_def Let_def
      map2_map_map conj_assoc)

text \<open>
  C9. For a non-empty per-identity trajectory the outlier filter keeps exactly the samples
  \<open>(x, y)\<close> with \<open>x\<close> in \<open>[Q1x - 3 IQRx, Q3x + 3 IQRx]\<close> and \<open>y\<close> in
  \<open>[Q1y - 3 IQRy, Q3y + 3 IQRy]\<close> (in their order, with their multiplicity), the quartiles
  being the 25th and 75th percentile of each axis on its own; the reported count, mean
  position and standard deviations are those of the retained samples.
\<close>

theorem outlier_filter_iqr:
  "positions \<noteq> [] \<Longrightarrow>
     filter_outliers positions = filter (retained positions) positions \<and>
     error_statistics_of positions = led_statistics (filter (retained positions) positions) \<and>
     (filter (retained positions) positions \<noteq> [] \<longrightarrow>
        detected_frames (error_statistics_of positions) =
          length (filter (retained positions) positions) \<and>
        mean_position (error_statistics_of positions) =
          Some (np_mean (map fst (filter (retained positions) positions)),
                np_mean (map snd (filter (retained positions) positions))) \<and>
        std_x (error_statistics_of positions) =
          Some (np_std (map fst (filter (retained positions) positions))) \<and>
        std_y (error_statistics_of positions) =
          Some (np_std (map snd (filter (retained positions) positions))) \<and>
        std_deviation (error_statistics_of positions) =
          Some (np_std (map (\<lambda>(x, y).
                  sqrt ((x - np_mean (map fst (filter (retained positions) positions)))\<^sup>2 +
                        (y - np_mean (map snd (filter (retained positions) positions)))\<^sup>2))
                (filter (retained positions) positions))))"
proof -
  assume ne: "positions \<noteq> []"
  have f: "filter_outliers positions = filter (retained positions) positions"
    using ne by (simp add: filter_outliers_def valid_mask_retained bool_index_map)
  then have e: "error_statistics_of positions = led_statistics (filter (retained positions) positions)"
    by (simp add: error_statistics_of_def)
  show ?thesis
    by (simp add: f e led_statistics_def Let_def)
qed

lemma pct:
  "percentile [1, 2, 3, 4, 100] 25 = 2" "percentile [1, 2, 3, 4, 100] 75 = 4"
  "percentile [1, 2, 3, 4, 3] 25 = 2" "percentile [1, 2, 3, 4, 3] 75 = 3"
  by (simp_all add: percentile_def Let_def)

theorem outlier_filter_iqr_witness:
  "[(1, 1), (2, 2), (3, 3), (4, 4), (100, 3)] \<noteq> ([] :: (real \<times> real) list) \<and>
   filter_outliers [(1, 1), (2, 2), (3, 3), (4, 4), (100, 3)] = [(1, 1), (2, 2), (3, 3), (4, 4)] \<and>
   detected_frames (error_statistics_of [(1, 1), (2, 2), (3, 3), (4, 4), (100, 3)]) = 4 \<and>
   mean_position (error_statistics_of [(1, 1), (2, 2), (3, 3), (4, 4), (100, 3)]) = Some (5/2, 5/2)"
proof -
  have r: "filter (retained [(1, 1), (2, 2), (3, 3), (4, 4), (100, 3)])
             [(1, 1), (2, 2), (3, 3), (4, 4), (100, 3)] = [(1, 1), (2, 2), (3, 3), (4, 4)]"
    by (simp add: retained_def within_iqr_bounds_def pct)
  have ne: "[(1, 1), (2, 2), (3, 3), (4, 4), (100, 3)] \<noteq> ([] :: (real \<times> real) list)"
    by simp
  show ?thesis
    using outlier_filter_iqr[OF ne, unfolded r]
    by (simp add: np_mean_def led_statistics_def Let_def)
qed

subsection \<open>The scan for the nearest point\<close>

lemma nearest_step_inv:
  assumes "nearest_inv used xo yo seen st"
  shows "nearest_inv used xo yo (seen @ [e]) (nearest_step used xo yo e st)"
proof -
  obtain i x y c where e: "e = (i, (x, y, c))" by (cases e) auto
  obtain b bd where st: "st = (b, bd)" by (cases st) auto
  show ?thesis
  proof (cases b)
    case None
    with assms st have bd: "bd = PInf" and
      far: "\<forall>(i, d) \<in> set seen. i \<in> used \<or> euclid xo yo (det_x d) (det_y d) > max_jump_dist"
      by (auto simp: nearest_inv_def)
    show ?thesis
    proof (cases "i \<in> used \<or> euclid xo yo x y > max_jump_dist")
      case True
      then have "nearest_step used xo yo e st = st"
        by (auto simp: e st Let_def)
      moreover have "nearest_inv used xo yo (seen @ [e]) st"
        using far True unfolding nearest_inv_def st None bd
        by (auto simp: e det_simps)
      ultimately show ?thesis by simp
    next
      case False
      then have "nearest_step used xo yo e st = (Some i, Fin (euclid xo yo x y))"
        by (auto simp: e st bd None Let_def)
      moreover have "nearest_inv used xo yo (seen @ [e]) (Some i, Fin (euclid xo yo x y))"
        using far False unfolding nearest_inv_def prod.case option.case
        by (intro exI[of _ "(x, y, c)"]) (force simp: e det_simps)
      ultimately show ?thesis by simp
    qed
  next
    case (Some j)
    with assms st obtain d where d: "(j, d) \<in> set seen" "j \<notin> used"
      "euclid xo yo (det_x d) (det_y d) \<le> max_jump_dist"
      "bd = Fin (euclid xo yo (det_x d) (det_y d))"
      "\<forall>(i, d') \<in> set seen. i \<notin> used \<and>
                    euclid xo yo (det_x d') (det_y d') \<le> max_jump_dist \<longrightarrow>
                    euclid xo yo (det_x d) (det_y d) \<le> euclid xo yo (det_x d') (det_y d')"
      by (auto simp: nearest_inv_def)
    show ?thesis
    proof (cases "i \<in> used \<or> euclid xo yo x y > max_jump_dist")
      case True
      then have "nearest_step used xo yo e st = st"
        by (auto simp: e st Let_def)
      moreover have "nearest_inv used xo yo (seen @ [e]) st"
        using d True unfolding nearest_inv_def st Some prod.case option.case
        by (intro exI[of _ d]) (auto simp: e det_simps)
      ultimately show ?thesis by simp
    next
      case False
      show ?thesis
      proof (cases "euclid xo yo x y < euclid xo yo (det_x d) (det_y d)")
        case True
        with False have "nearest_step used xo yo e st = (Some i, Fin (euclid xo yo x y))"
          by (auto simp: e st d(4) Let_def)
        moreover have "nearest_inv used xo yo (seen @ [e]) (Some i, Fin (euclid xo yo x y))"
          using d(5) True False unfolding nearest_inv_def prod.case option.case
          by (intro exI[of _ "(x, y, c)"]) (force simp: e det_simps)
        ultimately show ?thesis by simp
      next
        case nless: False
        with False have "nearest_step used xo yo e st = st"
          by (auto simp: e st d(4) Let_def)
        moreover have "nearest_inv used xo yo (seen @ [e]) st"
          using d nless False unfolding nearest_inv_def st Some prod.case option.case
          by (intro exI[of _ d]) (auto simp: e det_simps)
        ultimately show ?thesis by simp
      qed
    qed
  qed
qed

lemma nearest_fold_inv:
  "nearest_inv used xo yo seen st \<Longrightarrow>
   nearest_inv used xo yo (seen @ es) (fold (nearest_step used xo yo) es st)"
proof (induction es arbitrary: seen st)
  case Nil
  then show ?case by simp
next
  case (Cons e es)
  from nearest_step_inv[OF Cons.prems, of e]
  have "nearest_inv used xo yo ((seen @ [e]) @ es)
          (fold (nearest_step used xo yo) es (nearest_step used xo yo e st))"
    by (rule Cons.IH)
  then show ?case by simp
qed

lemma find_nearest_inv:
  "nearest_inv used xo yo (List.enumerate 0 ds)
     (fold (nearest_step used xo yo) (List.enumerate 0 ds) (None, PInf))"
  using nearest_fold_inv[of used xo yo "[]" "(None, PInf)" "List.enumerate 0 ds"]
  by (simp add: nearest_inv_def)

lemma find_nearest_Some:
  assumes "find_nearest used xo yo ds = Some j"
  shows "j < length ds \<and> j \<notin> used \<and>
         euclid xo yo (det_x (ds ! j)) (det_y (ds ! j)) \<le> max_jump_dist \<and>
         (\<forall>k < length ds. k \<notin> used \<and>
              euclid xo yo (det_x (ds ! k)) (det_y (ds ! k)) \<le> max_jump_dist \<longrightarrow>
              euclid xo yo (det_x (ds ! j)) (det_y (ds ! j)) \<le>
              euclid xo yo (det_x (ds ! k)) (det_y (ds ! k)))"
proof -
  obtain bd where f: "fold (nearest_step used xo yo) (List.enumerate 0 ds) (None, PInf) = (Some j, bd)"
    using assms unfolding find_nearest_def
    by (cases "fold (nearest_step used xo yo) (List.enumerate 0 ds) (None, PInf)") auto
  from find_nearest_inv[of used xo yo ds] f obtain d where
    d: "(j, d) \<in> set (List.enumerate 0 ds)" "j \<notin> used"
      "euclid xo yo (det_x d) (det_y d) \<le> max_jump_dist"
      "\<forall>(i, d') \<in> set (List.enumerate 0 ds). i \<notin> used \<and>
                    euclid xo yo (det_x d') (det_y d') \<le> max_jump_dist \<longrightarrow>
                    euclid xo yo (det_x d) (det_y d) \<le> euclid xo yo (det_x d') (det_y d')"
    by (auto simp: nearest_inv_def)
  from d(1) have j: "j < length ds" "d = ds ! j" by (auto simp: in_set_enumerate_eq)
  have "\<forall>k < length ds. k \<notin> used \<and>
              euclid xo yo (det_x (ds ! k)) (det_y (ds ! k)) \<le> max_jump_dist \<longrightarrow>
              euclid xo yo (det_x d) (det_y d) \<le>
              euclid xo yo (det_x (ds ! k)) (det_y (ds ! k))"
  proof (intro allI impI)
    fix k assume k: "k < length ds" and
      e: "k \<notin> used \<and> euclid xo yo (det_x (ds ! k)) (det_y (ds ! k)) \<le> max_jump_dist"
    from k have "(k, ds ! k) \<in> set (List.enumerate 0 ds)" by (simp add: in_set_enumerate_eq)
    with d(4) e show "euclid xo yo (det_x d) (det_y d) \<le>
              euclid xo yo (det_x (ds ! k)) (det_y (ds ! k))" by blast
  qed
  with d j show ?thesis by simp
qed


subsection \<open>The loop over the slots\<close>

lemma match_slots_snoc:
  "match_slots (L @ [l]) D = match_step D (length L, l) (match_slots L D)"
  by (simp add: match_slots_def enumerate_append_eq)




lemma claimed_before_snoc:
  "q \<le> length L \<Longrightarrow> claimed_before (L @ [l]) D q = claimed_before L D q"
  by (simp add: claimed_before_def)

lemma claimed_before_length: "claimed_before L D (length L) = snd (match_slots L D)"
  by (simp add: claimed_before_def)

lemma match_slots_inv: "match_inv L D (match_slots L D)"
proof (induction L rule: rev_induct)
  case Nil
  then show ?case by (simp add: match_inv_def match_slots_def)
next
  case (snoc l L)
  obtain A used where st: "match_slots L D = (A, used)" by (cases "match_slots L D") auto
  obtain xo yo c where l: "l = (xo, yo, c)" by (cases l) auto
  from snoc st have inv:
    "used = snd ` set A" "distinct (map snd A)" "distinct (map fst A)"
    "\<forall>(q, j) \<in> set A. q < length L \<and> j < length D \<and>
            find_nearest (claimed_before L D q) (det_x (L ! q)) (det_y (L ! q)) D = Some j"
    "\<forall>q < length L. q \<notin> fst ` set A \<longrightarrow>
            find_nearest (claimed_before L D q) (det_x (L ! q)) (det_y (L ! q)) D = None"
    by (auto simp: match_inv_def)
  have cb: "claimed_before (L @ [l]) D (length L) = used"
    using st by (simp add: claimed_before_def)
  have old: "\<And>q. q < length L \<Longrightarrow>
      find_nearest (claimed_before (L @ [l]) D q) (det_x ((L @ [l]) ! q)) (det_y ((L @ [l]) ! q)) D =
      find_nearest (claimed_before L D q) (det_x (L ! q)) (det_y (L ! q)) D"
    by (simp add: claimed_before_snoc nth_append)
  have new: "find_nearest (claimed_before (L @ [l]) D (length L))
               (det_x ((L @ [l]) ! length L)) (det_y ((L @ [l]) ! length L)) D =
             find_nearest used xo yo D"
    using cb unfolding l by (simp add: det_simps)
  have notin: "length L \<notin> fst ` set A" using inv(4) by fastforce
  show ?case
  proof (cases "find_nearest used xo yo D")
    case None
    then have r: "match_slots (L @ [l]) D = (A, used)"
      by (simp add: match_slots_snoc st l)
    have "\<forall>q < length (L @ [l]). q \<notin> fst ` set A \<longrightarrow>
            find_nearest (claimed_before (L @ [l]) D q) (det_x ((L @ [l]) ! q))
               (det_y ((L @ [l]) ! q)) D = None"
    proof (intro allI impI)
      fix q assume q: "q < length (L @ [l])" and n: "q \<notin> fst ` set A"
      show "find_nearest (claimed_before (L @ [l]) D q) (det_x ((L @ [l]) ! q))
               (det_y ((L @ [l]) ! q)) D = None"
      proof (cases "q < length L")
        case True
        with inv(5) n old[OF True] show ?thesis by simp
      next
        case False
        with q have "q = length L" by simp
        with new None show ?thesis by simp
      qed
    qed
    moreover have "\<forall>(q, j) \<in> set A. q < length (L @ [l]) \<and> j < length D \<and>
            find_nearest (claimed_before (L @ [l]) D q) (det_x ((L @ [l]) ! q))
               (det_y ((L @ [l]) ! q)) D = Some j"
      using inv(4) old by fastforce
    ultimately show ?thesis
      unfolding r match_inv_def using inv(1,2,3) by simp
  next
    case (Some j)
    then have r: "match_slots (L @ [l]) D = (A @ [(length L, j)], insert j used)"
      by (simp add: match_slots_snoc st l)
    from find_nearest_Some[OF Some] have j: "j < length D" "j \<notin> used" by auto
    have a: "insert j used = snd ` set (A @ [(length L, j)])" using inv(1) by auto
    have b: "distinct (map snd (A @ [(length L, j)]))" using inv(1,2) j(2) by auto
    have c: "distinct (map fst (A @ [(length L, j)]))" using inv(3) notin by auto
    have d: "\<forall>(q, k) \<in> set (A @ [(length L, j)]). q < length (L @ [l]) \<and> k < length D \<and>
            find_nearest (claimed_before (L @ [l]) D q) (det_x ((L @ [l]) ! q))
               (det_y ((L @ [l]) ! q)) D = Some k"
    proof (intro ballI, clarify)
      fix q k assume m: "(q, k) \<in> set (A @ [(length L, j)])"
      show "q < length (L @ [l]) \<and> k < length D \<and>
            find_nearest (claimed_before (L @ [l]) D q) (det_x ((L @ [l]) ! q))
               (det_y ((L @ [l]) ! q)) D = Some k"
      proof (cases "(q, k) \<in> set A")
        case True
        with inv(4) have "q < length L" "k < length D"
          "find_nearest (claimed_before L D q) (det_x (L ! q)) (det_y (L ! q)) D = Some k"
          by auto
        with old[of q] show ?thesis by simp
      next
        case False
        with m have "q = length L" "k = j" by auto
        with new Some j(1) show ?thesis by simp
      qed
    qed
    have e: "\<forall>q < length (L @ [l]). q \<notin> fst ` set (A @ [(length L, j)]) \<longrightarrow>
            find_nearest (claimed_before (L @ [l]) D q) (det_x ((L @ [l]) ! q))
               (det_y ((L @ [l]) ! q)) D = None"
    proof (intro allI impI)
      fix q assume q: "q < length (L @ [l])" and n: "q \<notin> fst ` set (A @ [(length L, j)])"
      from n have "q \<noteq> length L" "q \<notin> fst ` set A" by auto
      with q have lt: "q < length L" by simp
      with inv(5) \<open>q \<notin> fst ` set A\<close> old[OF lt]
      show "find_nearest (claimed_before (L @ [l]) D q) (det_x ((L @ [l]) ! q))
               (det_y ((L @ [l]) ! q)) D = None" by simp
    qed
    show ?thesis
      unfolding r match_inv_def prod.case using a b c d e by blast
  qed
qed

subsection \<open>The filling loops\<close>

lemma fill_loop_ok:
  assumes "\<forall>p \<in> set ps. snd p < length D \<and> snd p < n \<and> fst p \<in> dom traj"
    and "length ad = n" and "length ai = n"
  shows "\<exists>traj'. fill_loop D ps (ad, ai, traj) =
            Inr (fold (\<lambda>p a. a[snd p := Some (D ! snd p)]) ps ad,
                 fold (\<lambda>p a. a[snd p := Some (fst p)]) ps ai, traj') \<and>
            dom traj' = dom traj"
  using assms
proof (induction ps arbitrary: ad ai traj)
  case Nil
  then show ?case by simp
next
  case (Cons p ps)
  obtain i k where p: "p = (i, k)" by (cases p) auto
  from Cons.prems(1) p have k: "k < length D" "k < n" and i: "i \<in> dom traj" by auto
  from i obtain h where h: "traj i = Some h" by auto
  let ?traj = "traj(i \<mapsto> h @ [(det_x (D ! k), det_y (D ! k))])"
  have dom: "dom ?traj = dom traj" using h by auto
  have rest: "\<forall>p \<in> set ps. snd p < length D \<and> snd p < n \<and> fst p \<in> dom ?traj"
    using Cons.prems(1) dom by auto
  have "\<exists>traj'. fill_loop D ps (ad[k := Some (D ! k)], ai[k := Some i], ?traj) =
            Inr (fold (\<lambda>p a. a[snd p := Some (D ! snd p)]) ps (ad[k := Some (D ! k)]),
                 fold (\<lambda>p a. a[snd p := Some (fst p)]) ps (ai[k := Some i]), traj') \<and>
            dom traj' = dom ?traj"
    by (rule Cons.IH[OF rest]) (simp_all add: Cons.prems)
  then obtain traj' where
    r: "fill_loop D ps (ad[k := Some (D ! k)], ai[k := Some i], ?traj) =
            Inr (fold (\<lambda>p a. a[snd p := Some (D ! snd p)]) ps (ad[k := Some (D ! k)]),
                 fold (\<lambda>p a. a[snd p := Some (fst p)]) ps (ai[k := Some i]), traj')"
    and d': "dom traj' = dom ?traj" by blast
  have step: "fill_loop D (p # ps) (ad, ai, traj) =
          fill_loop D ps (ad[k := Some (D ! k)], ai[k := Some i], ?traj)"
    using k Cons.prems(2,3) h by (simp add: p traj_append_def)
  show ?case
    unfolding step r using d' dom by (simp add: p)
qed

lemma fold_update_length:
  "length (fold (\<lambda>p a. a[snd p := f p]) ps a) = length a"
  by (induction ps arbitrary: a) auto

lemma fold_update_other:
  "k \<notin> snd ` set ps \<Longrightarrow> fold (\<lambda>p a. a[snd p := f p]) ps a ! k = a ! k"
  by (induction ps arbitrary: a) auto

lemma fold_update_hit:
  "distinct (map snd ps) \<Longrightarrow> p \<in> set ps \<Longrightarrow> snd p < length a \<Longrightarrow>
     fold (\<lambda>p a. a[snd p := f p]) ps a ! snd p = f p"
proof (induction ps arbitrary: a)
  case Nil
  then show ?case by simp
next
  case (Cons r ps)
  show ?case
  proof (cases "p = r")
    case True
    with Cons.prems(1) have "snd p \<notin> snd ` set ps" by auto
    then have "fold (\<lambda>p a. a[snd p := f p]) ps (a[snd r := f r]) ! snd p = (a[snd r := f r]) ! snd p"
      by (rule fold_update_other)
    with True Cons.prems(3) show ?thesis by simp
  next
    case False
    with Cons.prems have "p \<in> set ps" "distinct (map snd ps)" by auto
    with Cons.IH[of "a[snd r := f r]"] Cons.prems(3) show ?thesis by simp
  qed
qed

lemma fold_update_mset:
  assumes "distinct (map snd ps)" and "set (map snd ps) = {..<n}" and "length a = n"
  shows "mset (fold (\<lambda>p a. a[snd p := f p]) ps a) = mset (map f ps)"
proof -
  let ?R = "fold (\<lambda>p a. a[snd p := f p]) ps a"
  have len: "length ?R = n" using assms(3) by (simp add: fold_update_length)
  have "map f ps = map (\<lambda>p. ?R ! snd p) ps"
  proof (rule map_cong[OF refl])
    fix p assume p: "p \<in> set ps"
    with assms(2) have "snd p < n" by force
    with fold_update_hit[OF assms(1) p, of a f] assms(3) show "f p = ?R ! snd p" by simp
  qed
  also have "\<dots> = map ((!) ?R) (map snd ps)" by simp
  finally have "mset (map f ps) = image_mset ((!) ?R) (mset (map snd ps))"
    by (metis mset_map)
  also have "mset (map snd ps) = mset [0..<n]"
    using assms(1,2) by (metis atLeast_upt distinct_upt set_eq_iff_mset_eq_distinct)
  also have "image_mset ((!) ?R) (mset [0..<n]) = mset (map ((!) ?R) [0..<n])" by simp
  also have "map ((!) ?R) [0..<n] = ?R" using len by (metis map_nth)
  finally show ?thesis by simp
qed

lemma enumerate_as_map: "List.enumerate 0 xs = map (\<lambda>i. (i, xs ! i)) [0..<length xs]"
  by (rule nth_equalityI) (simp_all add: nth_enumerate_eq)

lemma unassigned_dets_filter:
  "unassigned_dets_of ad = filter (\<lambda>k. ad ! k = None) [0..<length ad]"
  by (simp add: unassigned_dets_of_def enumerate_as_map filter_map comp_def)

lemma unassigned_ids_filter:
  "unassigned_ids_of A = filter (\<lambda>i. i \<notin> fst ` set A) [0..<3]"
  unfolding unassigned_ids_of_def Let_def expected_leds_def
  by (rule filter_cong) auto

lemma length_filter_notin:
  assumes "distinct xs" and "set xs \<subseteq> {..<n}"
  shows "length (filter (\<lambda>i. i \<notin> set xs) [0..<n]) = n - length xs"
proof -
  have "length (filter (\<lambda>i. i \<in> set xs) [0..<n]) = card ({i. i \<in> set xs} \<inter> set [0..<n])"
    by (rule distinct_length_filter) simp
  also have "{i. i \<in> set xs} \<inter> set [0..<n] = set xs" using assms(2) by auto
  also have "card (set xs) = length xs" using assms(1) by (rule distinct_card)
  finally have a: "length (filter (\<lambda>i. i \<in> set xs) [0..<n]) = length xs" .
  have "length (filter (\<lambda>i. i \<in> set xs) [0..<n]) +
        length (filter (\<lambda>i. \<not> i \<in> set xs) [0..<n]) = length [0..<n]"
    by (rule sum_length_filter_compl)
  with a show ?thesis by simp
qed

lemma assign_tracked:
  assumes lp: "last_positions s = Some L" and lenL: "length L = 3"
    and dom: "{0, 1, 2} \<subseteq> dom (led_trajectory s)" and lend: "length dets = 3"
  shows "\<exists>ids traj' ps.
           assign_led_ids_robust s dets =
             Inr ((map Some (sort_by_x dets), ids),
                  s\<lparr>last_positions := Some (sort_by_x dets), led_trajectory := traj'\<rparr>) \<and>
           dom traj' = dom (led_trajectory s) \<and> length ids = 3 \<and>
           distinct (map fst (fst (match_slots L (sort_by_x dets)) @ ps)) \<and>
           set (map fst (fst (match_slots L (sort_by_x dets)) @ ps)) = {..<3} \<and>
           distinct (map snd (fst (match_slots L (sort_by_x dets)) @ ps)) \<and>
           set (map snd (fst (match_slots L (sort_by_x dets)) @ ps)) = {..<3} \<and>
           (\<forall>p \<in> set (fst (match_slots L (sort_by_x dets)) @ ps). ids ! snd p = Some (fst p))"
proof -
  define D where "D = sort_by_x dets"
  have lenD: "length D = 3" using lend by (simp add: D_def length_sort_by_x)
  obtain A used where ms: "match_slots L D = (A, used)" by (cases "match_slots L D") auto
  from match_slots_inv[of L D] ms lenL lenD have
    dA2: "distinct (map snd A)" and dA1: "distinct (map fst A)" and
    inA: "\<forall>p \<in> set A. fst p < 3 \<and> snd p < 3"
    by (auto simp: match_inv_def)
  let ?traj = "led_trajectory s"
  let ?none_d = "replicate (length D) (None :: det option)"
  let ?none_i = "replicate (length D) (None :: nat option)"
  let ?fd = "\<lambda>p a. a[snd p := Some (D ! snd p)]"
  let ?fi = "\<lambda>(p :: nat \<times> nat) a. a[snd p := Some (fst p)]"
  define ad2 where "ad2 = fold ?fd A ?none_d"
  define ai2 where "ai2 = fold ?fi A ?none_i"
  have in3: "\<And>i :: nat. i < 3 \<Longrightarrow> i \<in> dom ?traj"
  proof -
    fix i :: nat assume "i < 3"
    then have "i = 0 \<or> i = 1 \<or> i = 2" by arith
    with dom show "i \<in> dom ?traj" by auto
  qed
  have psA: "\<forall>p \<in> set A. snd p < length D \<and> snd p < length D \<and> fst p \<in> dom ?traj"
    using inA in3 lenD by simp
  from fill_loop_ok[OF psA, of ?none_d ?none_i] obtain traj2 where
    f2: "fill_loop D A (?none_d, ?none_i, ?traj) = Inr (ad2, ai2, traj2)" and
    d2: "dom traj2 = dom ?traj"
    unfolding ad2_def ai2_def by auto
  have len2: "length ad2 = 3" "length ai2 = 3"
    by (simp_all add: ad2_def ai2_def fold_update_length lenD)
  have ad2_none: "\<And>k. k < 3 \<Longrightarrow> (ad2 ! k = None) = (k \<notin> set (map snd A))"
  proof -
    fix k :: nat assume k: "k < 3"
    show "(ad2 ! k = None) = (k \<notin> set (map snd A))"
    proof (cases "k \<in> snd ` set A")
      case True
      then obtain p where p: "p \<in> set A" "snd p = k" by auto
      from fold_update_hit[OF dA2 p(1), of ?none_d "\<lambda>p. Some (D ! snd p)"] p(2) k lenD
      have "ad2 ! k = Some (D ! k)" by (simp add: ad2_def)
      with True show ?thesis by simp
    next
      case False
      from fold_update_other[OF False, of "\<lambda>p. Some (D ! snd p)" ?none_d] k lenD
      have "ad2 ! k = None" by (simp add: ad2_def)
      with False show ?thesis by simp
    qed
  qed
  define udets where "udets = unassigned_dets_of ad2"
  define uids where "uids = unassigned_ids_of A"
  have udets: "udets = filter (\<lambda>k. k \<notin> set (map snd A)) [0..<3]"
    unfolding udets_def unassigned_dets_filter len2
    by (rule filter_cong) (auto simp: ad2_none)
  have uids: "uids = filter (\<lambda>i. i \<notin> set (map fst A)) [0..<3]"
    unfolding uids_def unassigned_ids_filter by simp
  have subA: "set (map fst A) \<subseteq> {..<3}" "set (map snd A) \<subseteq> {..<3}" using inA by auto
  have lens: "length uids = 3 - length A" "length udets = 3 - length A"
    using length_filter_notin[OF dA1 subA(1)] length_filter_notin[OF dA2 subA(2)]
    by (simp_all add: uids udets)
  define ps where "ps = zip uids udets"
  have mf: "map fst ps = uids" and msn: "map snd ps = udets"
    using lens by (simp_all add: ps_def)
  have ps3: "\<forall>p \<in> set ps. snd p < length D \<and> snd p < 3 \<and> fst p \<in> dom traj2"
  proof
    fix p assume "p \<in> set ps"
    then have "fst p \<in> set (map fst ps)" "snd p \<in> set (map snd ps)" by auto
    then have "fst p < 3" "snd p < 3" unfolding mf msn by (auto simp: uids udets)
    with in3[of "fst p"] d2 lenD show "snd p < length D \<and> snd p < 3 \<and> fst p \<in> dom traj2"
      by simp
  qed
  define ad3 where "ad3 = fold ?fd ps ad2"
  define ai3 where "ai3 = fold ?fi ps ai2"
  from fill_loop_ok[OF ps3 len2] obtain traj3 where
    f3: "fill_loop D ps (ad2, ai2, traj2) = Inr (ad3, ai3, traj3)" and
    d3: "dom traj3 = dom traj2"
    unfolding ad3_def ai3_def by auto
  have r: "assign_led_ids_robust s dets =
             Inr ((ad3, ai3), s\<lparr>last_positions := Some D, led_trajectory := traj3\<rparr>)"
    unfolding assign_led_ids_robust_def Let_def D_def[symmetric]
    using lenD lp ms f2 f3
    by (simp add: expected_leds_def ps_def uids_def udets_def)
  let ?C = "A @ ps"
  have cf: "distinct (map fst ?C)" "set (map fst ?C) = {..<3}"
    using dA1 subA(1) by (auto simp: mf uids)
  have cs: "distinct (map snd ?C)" "set (map snd ?C) = {..<3}"
    using dA2 subA(2) by (auto simp: msn udets)
  have ad3C: "ad3 = fold ?fd ?C ?none_d" and ai3C: "ai3 = fold ?fi ?C ?none_i"
    by (simp_all add: ad3_def ai3_def ad2_def ai2_def)
  have len3: "length ad3 = 3" "length ai3 = 3"
    by (simp_all add: ad3C ai3C fold_update_length lenD)
  have hit_i: "\<forall>p \<in> set ?C. ai3 ! snd p = Some (fst p)"
  proof
    fix p assume p: "p \<in> set ?C"
    then have "snd p \<in> set (map snd ?C)" by (metis image_eqI set_map)
    then have "snd p < 3" unfolding cs(2) by simp
    with fold_update_hit[OF cs(1) p, of ?none_i "\<lambda>p. Some (fst p)"] lenD
    show "ai3 ! snd p = Some (fst p)" by (simp add: ai3C)
  qed
  have "ad3 = map Some D"
  proof (rule nth_equalityI)
    show "length ad3 = length (map Some D)" using len3 lenD by simp
  next
    fix k assume "k < length ad3"
    then have k: "k < 3" using len3 by simp
    then have "k \<in> set (map snd ?C)" unfolding cs(2) by simp
    then obtain p where p: "p \<in> set ?C" "snd p = k" by auto
    from fold_update_hit[OF cs(1) p(1), of ?none_d "\<lambda>p. Some (D ! snd p)"] p(2) k lenD
    show "ad3 ! k = map Some D ! k" by (simp add: ad3C)
  qed
  with r have r': "assign_led_ids_robust s dets =
             Inr ((map Some D, ai3), s\<lparr>last_positions := Some D, led_trajectory := traj3\<rparr>)"
    by simp
  have A: "fst (match_slots L D) = A" using ms by simp
  show ?thesis
    unfolding D_def[symmetric] A
    using r' d3 d2 len3(2) cf cs hit_i
    by (intro exI[of _ ai3] exI[of _ traj3] exI[of _ ps]) simp
qed

subsection \<open>Identity assignment\<close>

lemma assign_first:
  assumes lp: "last_positions s = None"
    and dom: "{0, 1, 2} \<subseteq> dom (led_trajectory s)" and lend: "length dets = 3"
  shows "\<exists>traj'.
           assign_led_ids_robust s dets =
             Inr ((map Some (sort_by_x dets), [Some 0, Some 1, Some 2]),
                  s\<lparr>last_positions := Some (sort_by_x dets), led_trajectory := traj'\<rparr>) \<and>
           dom traj' = dom (led_trajectory s)"
proof -
  define D where "D = sort_by_x dets"
  have lenD: "length D = 3" using lend by (simp add: D_def length_sort_by_x)
  let ?ps = "map (\<lambda>i. (i, i)) [0..<length D]"
  let ?none_d = "replicate (length D) (None :: det option)"
  let ?none_i = "replicate (length D) (None :: nat option)"
  have in3: "\<And>i :: nat. i < 3 \<Longrightarrow> i \<in> dom (led_trajectory s)"
  proof -
    fix i :: nat assume "i < 3"
    then have "i = 0 \<or> i = 1 \<or> i = 2" by arith
    with dom show "i \<in> dom (led_trajectory s)" by auto
  qed
  have ps: "\<forall>p \<in> set ?ps. snd p < length D \<and> snd p < length D \<and> fst p \<in> dom (led_trajectory s)"
    using in3 lenD by auto
  from fill_loop_ok[OF ps, of ?none_d ?none_i] obtain ad ai traj' where
    f: "fill_loop D ?ps (?none_d, ?none_i, led_trajectory s) = Inr (ad, ai, traj')" and
    d: "dom traj' = dom (led_trajectory s)"
    by auto
  have "assign_led_ids_robust s dets =
          Inr ((map Some D, map Some [0..<length D]),
               s\<lparr>last_positions := Some D, led_trajectory := traj'\<rparr>)"
    unfolding assign_led_ids_robust_def Let_def D_def[symmetric]
    using lenD lp f by (simp add: expected_leds_def)
  moreover have "map Some [0..<length D] = [Some 0, Some 1, Some (2::nat)]"
    by (simp add: lenD numeral_3_eq_3 numeral_2_eq_2)
  ultimately show ?thesis
    unfolding D_def[symmetric] using d by (intro exI[of _ traj']) simp
qed

lemma ids_permutation:
  assumes "length ids = n" and "distinct (map snd C)" and "set (map snd C) = {..<n}"
    and "distinct (map fst C)" and "set (map fst C) = {..<n}"
    and "\<forall>p \<in> set C. ids ! snd p = Some (fst p)"
  shows "mset ids = mset (map Some [0..<n])"
proof -
  have up: "mset (map snd C) = mset [0..<n]" "mset (map fst C) = mset [0..<n]"
    using assms(2,3,4,5) by (metis atLeast_upt distinct_upt set_eq_iff_mset_eq_distinct)+
  have "ids = map ((!) ids) [0..<n]" using assms(1) by (metis map_nth)
  then have "mset ids = image_mset ((!) ids) (mset [0..<n])" by (metis mset_map)
  also have "\<dots> = image_mset ((!) ids) (mset (map snd C))" by (simp only: up)
  also have "\<dots> = mset (map (\<lambda>p. ids ! snd p) C)"
    by (simp add: multiset.map_comp comp_def)
  also have "map (\<lambda>p. ids ! snd p) C = map (\<lambda>p. Some (fst p)) C"
    using assms(6) by (intro map_cong) auto
  also have "mset (map (\<lambda>p. Some (fst p)) C) = image_mset Some (mset (map fst C))"
    by (simp add: multiset.map_comp comp_def)
  also have "\<dots> = mset (map Some [0..<n])" using up(2) by simp
  finally show ?thesis .
qed

lemma three_ids: "map Some [0..<3] = [Some 0, Some 1, Some (2::nat)]"
  by (simp add: numeral_3_eq_3 numeral_2_eq_2)

text \<open>
  C6. In \<open>_assign_led_ids_robust\<close>, on a frame with exactly three detections and a tracker as
  the detector can reach it, the call returns (raises nothing) the x-sorted detections with an
  id list that is a permutation of 0, 1, 2 with no unassigned entry, so no id is given to two
  current points; and the proximity assignment itself is one-to-one: no slot occurs twice in it
  and no current point is claimed by two slots. The tracker it leaves is again well-formed.
\<close>

theorem assignment_is_a_bijection:
  "tracker_ok s \<Longrightarrow> length dets = 3 \<Longrightarrow>
     (\<exists>ids s'. assign_led_ids_robust s dets = Inr ((map Some (sort_by_x dets), ids), s') \<and>
         mset ids = mset [Some 0, Some 1, Some 2] \<and> distinct ids \<and>
         tracker_ok s' \<and> last_positions s' = Some (sort_by_x dets)) \<and>
     (\<forall>lastp. last_positions s = Some lastp \<longrightarrow>
         distinct (map fst (fst (match_slots lastp (sort_by_x dets)))) \<and>
         distinct (map snd (fst (match_slots lastp (sort_by_x dets)))))"
proof -
  assume ok: "tracker_ok s" and lend: "length dets = 3"
  from ok have dom: "{0, 1, 2} \<subseteq> dom (led_trajectory s)" by (simp add: tracker_ok_def)
  have lenD: "length (sort_by_x dets) = 3" using lend by (simp add: length_sort_by_x)
  have d3: "distinct [Some 0, Some 1, Some (2::nat)]" by simp
  have first: "\<exists>ids s'. assign_led_ids_robust s dets = Inr ((map Some (sort_by_x dets), ids), s') \<and>
         mset ids = mset [Some 0, Some 1, Some 2] \<and> distinct ids \<and>
         tracker_ok s' \<and> last_positions s' = Some (sort_by_x dets)"
  proof (cases "last_positions s")
    case None
    from assign_first[OF None dom lend] obtain traj' where
      r: "assign_led_ids_robust s dets =
             Inr ((map Some (sort_by_x dets), [Some 0, Some 1, Some 2]),
                  s\<lparr>last_positions := Some (sort_by_x dets), led_trajectory := traj'\<rparr>)"
      and d: "dom traj' = dom (led_trajectory s)" by blast
    have "tracker_ok (s\<lparr>last_positions := Some (sort_by_x dets), led_trajectory := traj'\<rparr>)"
      using dom d lenD by (simp add: tracker_ok_def expected_leds_def)
    with r show ?thesis
      by (intro exI[of _ "[Some 0, Some 1, Some 2]"]
            exI[of _ "s\<lparr>last_positions := Some (sort_by_x dets), led_trajectory := traj'\<rparr>"])
         simp
  next
    case (Some L)
    with ok have lenL: "length L = 3" by (simp add: tracker_ok_def expected_leds_def)
    from assign_tracked[OF Some lenL dom lend] obtain ids traj' ps where
      r: "assign_led_ids_robust s dets =
             Inr ((map Some (sort_by_x dets), ids),
                  s\<lparr>last_positions := Some (sort_by_x dets), led_trajectory := traj'\<rparr>)"
      and d: "dom traj' = dom (led_trajectory s)" and len: "length ids = 3"
      and c: "distinct (map fst (fst (match_slots L (sort_by_x dets)) @ ps))"
           "set (map fst (fst (match_slots L (sort_by_x dets)) @ ps)) = {..<3}"
           "distinct (map snd (fst (match_slots L (sort_by_x dets)) @ ps))"
           "set (map snd (fst (match_slots L (sort_by_x dets)) @ ps)) = {..<3}"
           "\<forall>p \<in> set (fst (match_slots L (sort_by_x dets)) @ ps). ids ! snd p = Some (fst p)"
      by blast
    from ids_permutation[OF len c(3) c(4) c(1) c(2) c(5)]
    have m: "mset ids = mset [Some 0, Some 1, Some 2]" by (simp only: three_ids)
    then have di: "distinct ids" using d3 by (metis mset_eq_imp_distinct_iff)
    have "tracker_ok (s\<lparr>last_positions := Some (sort_by_x dets), led_trajectory := traj'\<rparr>)"
      using dom d lenD by (simp add: tracker_ok_def expected_leds_def)
    with r m di show ?thesis
      by (intro exI[of _ ids]
            exI[of _ "s\<lparr>last_positions := Some (sort_by_x dets), led_trajectory := traj'\<rparr>"])
         simp
  qed
  have second: "\<forall>lastp. last_positions s = Some lastp \<longrightarrow>
         distinct (map fst (fst (match_slots lastp (sort_by_x dets)))) \<and>
         distinct (map snd (fst (match_slots lastp (sort_by_x dets))))"
  proof (intro allI impI)
    fix lastp assume "last_positions s = Some lastp"
    from match_slots_inv[of lastp "sort_by_x dets"]
    show "distinct (map fst (fst (match_slots lastp (sort_by_x dets)))) \<and>
         distinct (map snd (fst (match_slots lastp (sort_by_x dets))))"
      by (cases "match_slots lastp (sort_by_x dets)") (simp add: match_inv_def)
  qed
  from first second show ?thesis by (rule conjI)
qed



lemmas tracker_eval = assign_led_ids_robust_def match_slots_def find_nearest_def euclid_def
  max_jump_dist_def sort_by_x_def det_simps expected_leds_def unassigned_ids_of_def
  unassigned_dets_of_def traj_append_def init_tracker_def less_sqrt_iff sqrt_le_iff
  numeral_3_eq_3

lemma slots_frame_a:
  "fst (match_slots [(100, 100, 1/2), (1000, 100, 1/2), (2000, 100, 1/2)]
               [(110, 95, 1/2), (500, 100, 1/2), (2000, 100, 1/2)]) = [(0, 0), (2, 2)]"
  by (simp add: tracker_eval) 

lemma assign_frame_a:
  "map_sum id fst (assign_led_ids_robust
      (init_tracker\<lparr>last_positions := Some [(100, 100, 1/2), (1000, 100, 1/2), (2000, 100, 1/2)]\<rparr>)
      [(110, 95, 1/2), (500, 100, 1/2), (2000, 100, 1/2)]) =
   Inr ([Some (110, 95, 1/2), Some (500, 100, 1/2), Some (2000, 100, 1/2)],
        [Some 0, Some 1, Some 2])"
  by (simp add: tracker_eval)




lemma frame_a_ok:
  "tracker_ok (init_tracker\<lparr>last_positions :=
      Some [(100, 100, 1/2), (1000, 100, 1/2), (2000, 100, 1/2)]\<rparr>)"
  by (simp add: tracker_ok_def init_tracker_def expected_leds_def)

lemma frame_a_sorted:
  "sort_by_x [(110, 95, 1/2), (500, 100, 1/2), (2000, 100, 1/2)] =
     [(110, 95, 1/2), (500, 100, 1/2), (2000, 100, 1/2)]"
  by (simp add: sort_by_x_def det_simps)


theorem assignment_is_a_bijection_witness:
  "tracker_ok (init_tracker\<lparr>last_positions :=
      Some [(100, 100, 1/2), (1000, 100, 1/2), (2000, 100, 1/2)]\<rparr>) \<and>
   length [(110, 95, 1/2), (500, 100, 1/2), (2000, 100, 1/2) :: det] = 3 \<and>
   map_sum id fst (assign_led_ids_robust
      (init_tracker\<lparr>last_positions := Some [(100, 100, 1/2), (1000, 100, 1/2), (2000, 100, 1/2)]\<rparr>)
      [(110, 95, 1/2), (500, 100, 1/2), (2000, 100, 1/2)]) =
     Inr ([Some (110, 95, 1/2), Some (500, 100, 1/2), Some (2000, 100, 1/2)],
          [Some 0, Some 1, Some 2]) \<and>
   distinct [Some 0, Some 1, Some (2::nat)] \<and>
   fst (match_slots [(100, 100, 1/2), (1000, 100, 1/2), (2000, 100, 1/2)]
          (sort_by_x [(110, 95, 1/2), (500, 100, 1/2), (2000, 100, 1/2)])) = [(0, 0), (2, 2)] \<and>
   distinct (map fst [(0, 0), (2, 2 :: nat) :: nat \<times> nat]) \<and>
   distinct (map snd [(0, 0), (2, 2 :: nat) :: nat \<times> nat])"
  using assignment_is_a_bijection
    [of "init_tracker\<lparr>last_positions :=
            Some [(100, 100, 1/2), (1000, 100, 1/2), (2000, 100, 1/2)]\<rparr>"
        "[(110, 95, 1/2), (500, 100, 1/2), (2000, 100, 1/2)]"]
    frame_a_ok assign_frame_a slots_frame_a
  by (simp add: frame_a_sorted)







subsection \<open>Every reachable tracker is well-formed\<close>

lemma init_tracker_ok: "tracker_ok init_tracker"
  by (simp add: tracker_ok_def init_tracker_def)

lemma assign_preserves_ok:
  assumes "tracker_ok s" and "assign_led_ids_robust s dets = Inr (r, s')"
  shows "tracker_ok s'"
proof (cases "length dets = 3")
  case False
  with assms show ?thesis
    by (simp add: assign_led_ids_robust_def Let_def expected_leds_def length_sort_by_x)
next
  case True
  from assms(1) have dom: "{0, 1, 2} \<subseteq> dom (led_trajectory s)" by (simp add: tracker_ok_def)
  have lenD: "length (sort_by_x dets) = 3" using True by (simp add: length_sort_by_x)
  show ?thesis
  proof (cases "last_positions s")
    case None
    from assign_first[OF None dom True] assms(2) obtain traj' where
      "s' = s\<lparr>last_positions := Some (sort_by_x dets), led_trajectory := traj'\<rparr>"
      "dom traj' = dom (led_trajectory s)" by auto
    with dom lenD show ?thesis by (simp add: tracker_ok_def expected_leds_def)
  next
    case (Some L)
    with assms(1) have lenL: "length L = 3" by (simp add: tracker_ok_def expected_leds_def)
    from assign_tracked[OF Some lenL dom True] assms(2) obtain traj' where
      "s' = s\<lparr>last_positions := Some (sort_by_x dets), led_trajectory := traj'\<rparr>"
      "dom traj' = dom (led_trajectory s)" by auto
    with dom lenD show ?thesis by (simp add: tracker_ok_def expected_leds_def)
  qed
qed

lemma detect_preserves_ok:
  assumes "tracker_ok s" and "detect s extracted = Inr (r, s')"
  shows "tracker_ok s'"
proof -
  from assms(2) obtain r0 s0 where
    a: "assign_led_ids_robust s (cap_detections (merge_detections extracted)) = Inr (r0, s0)"
    and s': "s' = s0\<lparr>frame_count := frame_count s0 + 1\<rparr>"
    by (auto simp: detect_def Let_def split: sum.splits prod.splits)
  from assign_preserves_ok[OF assms(1) a] have "tracker_ok s0" .
  then show ?thesis by (simp add: s' tracker_ok_def)
qed

end
